theory Spec2Isabelle
  imports
    Main
    "HOL-Library.Word"
    "HOL-Library.Signed_Division"
    "HOL-Library.Multiset"
    "HOL-Library.Sublist"
begin

section \<open>Text produced by the stream inserters\<close>

text \<open>
  \<open>thread.cpp\<close> builds its output with \<open>operator<<\<close> on integers and with
  \<open>std::to_string\<close>: both render an integer in decimal, with a leading minus sign when
  it is negative and no padding. \<open>show_nat\<close> is the digit loop, \<open>to_string\<close> adds the sign.
\<close>

definition digit_char :: "nat \<Rightarrow> char" where
  "digit_char d = ''0123456789'' ! d"

fun show_nat :: "nat \<Rightarrow> string" where
  "show_nat n = (if n < 10 then [digit_char n] else show_nat (n div 10) @ [digit_char (n mod 10)])"

declare show_nat.simps [simp del]

definition to_string :: "int \<Rightarrow> string" where
  "to_string i = (if i < 0 then CHR ''-'' # show_nat (nat (- i)) else show_nat (nat i))"

text \<open>
  \<open>setfill(c)\<close> followed by \<open>setw(n)\<close> pads the next insertion on the left (the default
  adjustment) up to \<open>n\<close> characters and never cuts a longer text.
\<close>

definition setw_fill :: "nat \<Rightarrow> char \<Rightarrow> string \<Rightarrow> string" where
  "setw_fill n c s = replicate (n - length s) c @ s"

text \<open>The readers below are the inverses used to show that a rendered number can be read back.\<close>

definition digit_val :: "char \<Rightarrow> nat" where
  "digit_val c = of_char c - 48"

definition read_nat :: "string \<Rightarrow> nat" where
  "read_nat s = foldl (\<lambda>a c. 10 * a + digit_val c) 0 s"

definition read_int :: "string \<Rightarrow> int" where
  "read_int s = (case s of
      [] \<Rightarrow> 0
    | c # cs \<Rightarrow> if c = CHR ''-'' then - int (read_nat cs) else int (read_nat s))"

definition is_digit :: "char \<Rightarrow> bool" where
  "is_digit c = (c \<in> set ''0123456789'')"

section \<open>The shared state\<close>

text \<open>
  The program has two shared objects: the global \<open>atomic<int> seq_counter(1)\<close> and the
  stream \<open>cout\<close>. The counter is a 32-bit machine integer (\<open>int\<close> on the platforms the
  file is written for); atomic arithmetic on a signed integer wraps in two's complement,
  so it is a \<open>32 word\<close> read back with \<open>sint\<close>. \<open>cout\<close> is the list of texts inserted
  into the stream so far, one entry per \<open>operator<<\<close> call, oldest first; what the
  console shows is their concatenation.
\<close>

record world =
  seq_counter :: "32 word"
  cout :: "string list"

definition init_world :: world where
  "init_world = \<lparr>seq_counter = 1, cout = []\<rparr>"

definition console :: "world \<Rightarrow> string" where
  "console w = concat (cout w)"

text \<open>\<open>seq_counter.fetch_add(d)\<close>: returns the value held before and adds \<open>d\<close>, in one step.\<close>

definition fetch_add :: "32 word \<Rightarrow> world \<Rightarrow> 32 word \<times> world" where
  "fetch_add d w = (seq_counter w, w\<lparr>seq_counter := seq_counter w + d\<rparr>)"

text \<open>One insertion \<open>cout << s\<close>.\<close>

definition cout_insert :: "string \<Rightarrow> world \<Rightarrow> world" where
  "cout_insert s w = w\<lparr>cout := cout w @ [s]\<rparr>"

text \<open>
  \<open>next_n n w\<close> is \<open>n\<close> successive calls of \<open>seq_counter.fetch_add(1)\<close> by a single caller,
  with the values they return as C \<open>int\<close>s, first call first.
\<close>

fun next_n :: "nat \<Rightarrow> world \<Rightarrow> int list \<times> world" where
  "next_n 0 w = ([], w)"
| "next_n (Suc n) w =
     (let (v, w1) = fetch_add 1 w;
          (vs, w2) = next_n n w1
      in (sint v # vs, w2))"

section \<open>The timestamp formatter\<close>

text \<open>
  What \<open>current_timestamp\<close> takes from outside the program is one reading of
  \<open>system_clock::now()\<close>: the signed tick count \<open>now.time_since_epoch().count()\<close>, in
  nanoseconds (the tick of the \<open>localtime_r\<close> build), and the offset from UTC, in
  seconds, that the local zone has at that instant.
\<close>

record clock =
  since_epoch :: int
  gmtoff :: int

record tm =
  tm_hour :: int
  tm_min :: int
  tm_sec :: int

text \<open>
  \<open>duration_cast\<close> and \<open>to_time_t\<close> divide the tick count as C++ divides integers:
  towards zero (\<open>sdiv\<close>, with remainder \<open>smod\<close>).
\<close>

definition duration_cast_milliseconds :: "int \<Rightarrow> int" where
  "duration_cast_milliseconds ns = ns sdiv 1000000"

definition to_time_t :: "int \<Rightarrow> int" where
  "to_time_t ns = ns sdiv 1000000000"

text \<open>
  \<open>localtime_r\<close> is the C library's: the broken-down local time of a POSIX \<open>time_t\<close>
  (86400 seconds a day, no leap seconds). Only the three fields that \<open>%H:%M:%S\<close> reads
  are kept.
\<close>

definition localtime_r :: "int \<Rightarrow> int \<Rightarrow> tm" where
  "localtime_r off t_c =
     (let s = (t_c + off) mod 86400
      in \<lparr>tm_hour = s div 3600, tm_min = s mod 3600 div 60, tm_sec = s mod 60\<rparr>)"

text \<open>\<open>put_time(&local_tm, "%H:%M:%S")\<close>: each field as a decimal number of two digits.\<close>

definition put_time_HMS :: "tm \<Rightarrow> string" where
  "put_time_HMS t =
     setw_fill 2 CHR ''0'' (to_string (tm_hour t)) @ '':'' @
     setw_fill 2 CHR ''0'' (to_string (tm_min t)) @ '':'' @
     setw_fill 2 CHR ''0'' (to_string (tm_sec t))"

definition current_timestamp :: "clock \<Rightarrow> world \<Rightarrow> string \<times> world" where
  "current_timestamp clk w =
     (let now = since_epoch clk;
          ms = duration_cast_milliseconds now smod 1000;
          t_c = to_time_t now;
          local_tm = localtime_r (gmtoff clk) t_c;
          ss = put_time_HMS local_tm @ ''.'' @ setw_fill 3 CHR ''0'' (to_string ms)
      in (ss, w))"


text \<open>The pattern \<open>\d{2}:\d{2}:\d{2}\.\d{3}\<close>, and the four numbers read back from it.\<close>

fun timestamp_pattern :: "string \<Rightarrow> bool" where
  "timestamp_pattern [h1, h2, c1, m1, m2, c2, s1, s2, d, f1, f2, f3] =
     (is_digit h1 \<and> is_digit h2 \<and> c1 = CHR '':'' \<and> is_digit m1 \<and> is_digit m2 \<and>
      c2 = CHR '':'' \<and> is_digit s1 \<and> is_digit s2 \<and> d = CHR ''.'' \<and>
      is_digit f1 \<and> is_digit f2 \<and> is_digit f3)"
| "timestamp_pattern _ = False"

definition hour_field :: "string \<Rightarrow> nat" where
  "hour_field s = read_nat (take 2 s)"

definition minute_field :: "string \<Rightarrow> nat" where
  "minute_field s = read_nat (take 2 (drop 3 s))"

definition second_field :: "string \<Rightarrow> nat" where
  "second_field s = read_nat (take 2 (drop 6 s))"

definition millisecond_field :: "string \<Rightarrow> nat" where
  "millisecond_field s = read_nat (take 3 (drop 9 s))"

section \<open>The log emitter\<close>

text \<open>
  \<open>compose_block\<close> is the text that \<open>print_thread_output\<close> collects in its local
  \<open>stringstream ss\<close>. Besides its three arguments a call takes two things from its
  surroundings, which are parameters here: the clock reading \<open>clk\<close> that its one call of
  \<open>current_timestamp\<close> sees, and \<open>tid\<close>, the text of \<open>this_thread::get_id()\<close>, which C++
  leaves to the implementation.
\<close>

definition compose_block ::
  "string \<Rightarrow> string \<Rightarrow> 32 word \<Rightarrow> string \<Rightarrow> string \<Rightarrow> string \<Rightarrow> string" where
  "compose_block color ts seq label func_name tid =
     color
     @ ''['' @ ts @ ''] ''
     @ ''#'' @ to_string (sint seq) @ '' ['' @ label @ '']\<newline>''
     @ ''  Function : '' @ func_name @ ''\<newline>''
     @ ''  Thread ID: '' @ tid @ ''\<newline>''
     @ ''---------------------------------\<newline>''"

definition print_thread_output ::
  "clock \<Rightarrow> string \<Rightarrow> string \<Rightarrow> string \<Rightarrow> string \<Rightarrow> world \<Rightarrow> world" where
  "print_thread_output clk tid color label func_name w =
     (let (seq, w1) = fetch_add 1 w;
          (ts, w2) = current_timestamp clk w1;
          ss = compose_block color ts seq label func_name tid;
          w3 = cout_insert ss w2
      in cout_insert (CHR 0x1B # ''[0m'') w3)"

text \<open>The vocabulary of the interface description: the separator line and the lines of a text.\<close>

definition separator :: string where
  "separator = replicate 33 CHR ''-''"

definition unlines :: "string list \<Rightarrow> string" where
  "unlines ls = concat (map (\<lambda>l. l @ ''\<newline>'') ls)"

fun lines_acc :: "string \<Rightarrow> string \<Rightarrow> string list" where
  "lines_acc cur [] = (if cur = [] then [] else [cur])"
| "lines_acc cur (c # cs) =
     (if c = CHR 0x0A then cur # lines_acc [] cs else lines_acc (cur @ [c]) cs)"

definition lines :: "string \<Rightarrow> string list" where
  "lines s = lines_acc [] s"

text \<open>
  Reading the stream back. Among the texts the program inserts, a log block is the one
  that holds a \<open>#\<close> and ends with the separator line; its sequence number is the
  decimal number written after its first \<open>#\<close>, up to the next blank.
\<close>

definition is_log_block :: "string \<Rightarrow> bool" where
  "is_log_block s = (CHR ''#'' \<in> set s \<and> suffix ''---------------------------------\<newline>'' s)"

definition log_blocks :: "world \<Rightarrow> string list" where
  "log_blocks w = filter is_log_block (cout w)"

definition block_seq :: "string \<Rightarrow> int" where
  "block_seq s =
     read_int (takeWhile (\<lambda>c. c \<noteq> CHR '' '') (drop 1 (dropWhile (\<lambda>c. c \<noteq> CHR ''#'') s)))"

section \<open>The worker tasks\<close>

definition free_function :: "clock \<Rightarrow> string \<Rightarrow> 32 word \<Rightarrow> world \<Rightarrow> world" where
  "free_function clk tid ident w =
     print_thread_output clk tid (CHR 0x1B # ''[32m'')
       (''free_function #'' @ to_string (sint ident)) ''free_function'' w"

definition member_function :: "clock \<Rightarrow> string \<Rightarrow> 32 word \<Rightarrow> world \<Rightarrow> world" where
  "member_function clk tid ident w =
     print_thread_output clk tid (CHR 0x1B # ''[34m'')
       (''Foo::member_function #'' @ to_string (sint ident)) ''member_function'' w"

section \<open>Threads\<close>

text \<open>
  A thread that runs \<open>print_thread_output\<close> touches the shared state three times: the
  \<open>fetch_add\<close> and the two insertions into \<open>cout\<close> of the last statement,
  \<open>cout << ss.str() << "\033[0m"\<close>. Between them it works on its own locals. A
  \<open>frame\<close> is such a call in flight: its arguments, where it stands, and its locals
  \<open>seq\<close> and \<open>ss\<close>. \<open>frame_step\<close> runs it up to its next stopping point. Each access to
  the shared state is one step: \<open>fetch_add\<close> is atomic by its type, and one insertion
  into the synchronised \<open>cout\<close> is taken as indivisible, as the implementations the
  file is written for make it (the stream is locked for the length of one
  \<open>operator<<\<close>); C++ itself promises only the absence of data races.
\<close>

datatype pc = At_fetch_add | At_compose | At_insert_block | At_insert_reset | Returned

record frame =
  f_clk :: clock
  f_tid :: string
  f_color :: string
  f_label :: string
  f_func_name :: string
  f_pc :: pc
  f_seq :: "32 word"
  f_ss :: string

definition call_print_thread_output ::
  "clock \<Rightarrow> string \<Rightarrow> string \<Rightarrow> string \<Rightarrow> string \<Rightarrow> frame" where
  "call_print_thread_output clk tid color label func_name =
     \<lparr>f_clk = clk, f_tid = tid, f_color = color, f_label = label, f_func_name = func_name,
      f_pc = At_fetch_add, f_seq = 0, f_ss = []\<rparr>"

definition frame_step :: "frame \<Rightarrow> world \<Rightarrow> frame \<times> world" where
  "frame_step f w =
     (case f_pc f of
        At_fetch_add \<Rightarrow>
          (let (seq, w1) = fetch_add 1 w in (f\<lparr>f_seq := seq, f_pc := At_compose\<rparr>, w1))
      | At_compose \<Rightarrow>
          (let (ts, w1) = current_timestamp (f_clk f) w
           in (f\<lparr>f_ss := compose_block (f_color f) ts (f_seq f) (f_label f) (f_func_name f) (f_tid f),
                  f_pc := At_insert_block\<rparr>, w1))
      | At_insert_block \<Rightarrow> (f\<lparr>f_pc := At_insert_reset\<rparr>, cout_insert (f_ss f) w)
      | At_insert_reset \<Rightarrow> (f\<lparr>f_pc := Returned\<rparr>, cout_insert (CHR 0x1B # ''[0m'') w)
      | Returned \<Rightarrow> (f, w))"

text \<open>The block a frame writes, from its arguments and the sequence number it drew.\<close>

definition block_of :: "frame \<Rightarrow> string" where
  "block_of f =
     compose_block (f_color f) (fst (current_timestamp (f_clk f) init_world)) (f_seq f)
       (f_label f) (f_func_name f) (f_tid f)"

definition block_lines :: "frame \<Rightarrow> string list" where
  "block_lines f =
     [''['' @ fst (current_timestamp (f_clk f) init_world) @ ''] #'' @ to_string (sint (f_seq f)) @
        '' ['' @ f_label f @ '']'',
      ''  Function : '' @ f_func_name f,
      ''  Thread ID: '' @ f_tid f,
      separator]"

text \<open>
  The running threads are a list of frames; a schedule names the thread that takes each
  next step. Every interleaving of the threads is some schedule.
\<close>

type_synonym system = "world \<times> frame list"

definition sched_step :: "nat \<Rightarrow> system \<Rightarrow> system" where
  "sched_step i s =
     (case s of (w, fs) \<Rightarrow>
        if i < length fs
        then (let (f, w1) = frame_step (fs ! i) w in (w1, fs[i := f]))
        else s)"

definition run :: "nat list \<Rightarrow> system \<Rightarrow> system" where
  "run sched s = fold sched_step sched s"

definition has_written :: "frame \<Rightarrow> bool" where
  "has_written f = (f_pc f = At_insert_reset \<or> f_pc f = Returned)"

text \<open>
  What a frame has done to the shared state so far: the sequence number it has drawn and
  the texts it has inserted. Its arguments never change.
\<close>

definition drawn :: "frame \<Rightarrow> 32 word multiset" where
  "drawn f = (if f_pc f = At_fetch_add then {#} else {#f_seq f#})"

definition written :: "frame \<Rightarrow> string multiset" where
  "written f =
     (case f_pc f of
        At_insert_reset \<Rightarrow> {#f_ss f#}
      | Returned \<Rightarrow> {#f_ss f, CHR 0x1B # ''[0m''#}
      | _ \<Rightarrow> {#})"

definition frame_args :: "frame \<Rightarrow> clock \<times> string \<times> string \<times> string \<times> string" where
  "frame_args f = (f_clk f, f_tid f, f_color f, f_label f, f_func_name f)"

definition all_joined :: "system \<Rightarrow> bool" where
  "all_joined s = list_all (\<lambda>f. f_pc f = Returned) (snd s)"

text \<open>The number of steps a frame still has to take before it returns.\<close>

definition steps_left :: "frame \<Rightarrow> nat" where
  "steps_left f =
     (case f_pc f of
        At_fetch_add \<Rightarrow> 4
      | At_compose \<Rightarrow> 3
      | At_insert_block \<Rightarrow> 2
      | At_insert_reset \<Rightarrow> 1
      | Returned \<Rightarrow> 0)"

text \<open>
  The invariant of every schedule, for threads started on a counter \<open>c0\<close> and a stream
  \<open>out0\<close>: the counter has advanced by the number of draws, the numbers drawn are
  \<open>c0\<close>, \<open>c0 + 1\<close>, ... once each, the stream holds \<open>out0\<close> first and then whole
  insertions of the threads, and a frame past its composing step holds its block.
\<close>

definition composed :: "frame \<Rightarrow> bool" where
  "composed f = (f_pc f = At_fetch_add \<or> f_pc f = At_compose \<or> f_ss f = block_of f)"

definition invariant :: "32 word \<Rightarrow> string list \<Rightarrow> frame list \<Rightarrow> system \<Rightarrow> bool" where
  "invariant c0 out0 fs0 s =
     (case s of (w, fs) \<Rightarrow>
        seq_counter w = c0 + word_of_nat (size (sum_list (map drawn fs)))
      \<and> sum_list (map drawn fs) =
          mset (map (\<lambda>k. c0 + word_of_nat k) [0..<size (sum_list (map drawn fs))])
      \<and> mset (cout w) = mset out0 + sum_list (map written fs)
      \<and> prefix out0 (cout w)
      \<and> list_all composed fs
      \<and> map frame_args fs = map frame_args fs0)"

section \<open>The coordinator\<close>

text \<open>
  \<open>main\<close> up to the creation of the first thread: its own call of
  \<open>print_thread_output\<close>, then the seven insertions of the hardware-concurrency
  statement. \<open>thread::hardware_concurrency()\<close> returns an \<open>unsigned int\<close>, the
  \<open>size\<close> of the source, here \<open>n_hw\<close>.
\<close>

definition main_startup :: "clock \<Rightarrow> clock \<Rightarrow> string \<Rightarrow> 32 word \<Rightarrow> world \<Rightarrow> world" where
  "main_startup clk1 clk2 tid n_hw w =
     (let w1 = print_thread_output clk1 tid (CHR 0x1B # ''[33m'') ''main'' ''main'' w;
          (ts, w2) = current_timestamp clk2 w1
      in fold cout_insert
           [''['', ts, ''] '', ''Hardware concurrency: '', to_string (uint n_hw), ''\<newline>'',
            ''---------------------------------\<newline>'']
           w2)"

text \<open>
  The two creation loops: \<open>foo_count = 4\<close> threads run \<open>Foo::member_function\<close> and
  \<open>free_count = 3\<close> threads run \<open>free_function\<close>, each with \<open>i + 1\<close>. Thread \<open>k\<close> of
  the vector reads the clock as \<open>clk k\<close> and prints its identifier as \<open>tid k\<close>.
\<close>

definition member_function_thread :: "clock \<Rightarrow> string \<Rightarrow> 32 word \<Rightarrow> frame" where
  "member_function_thread clk tid ident =
     call_print_thread_output clk tid (CHR 0x1B # ''[34m'')
       (''Foo::member_function #'' @ to_string (sint ident)) ''member_function''"

definition free_function_thread :: "clock \<Rightarrow> string \<Rightarrow> 32 word \<Rightarrow> frame" where
  "free_function_thread clk tid ident =
     call_print_thread_output clk tid (CHR 0x1B # ''[32m'')
       (''free_function #'' @ to_string (sint ident)) ''free_function''"

definition main_threads :: "(nat \<Rightarrow> clock) \<Rightarrow> (nat \<Rightarrow> string) \<Rightarrow> frame list" where
  "main_threads clk tid =
     map (\<lambda>i. member_function_thread (clk i) (tid i) (word_of_nat i + 1)) [0..<4] @
     map (\<lambda>i. free_function_thread (clk (4 + i)) (tid (4 + i)) (word_of_nat i + 1)) [0..<3]"

text \<open>
  The run of \<open>main\<close> under a schedule of its seven threads. A thread that is created
  later can only start later, so the runs of the program are among these schedules. The
  join loop returns once every thread has returned: \<open>all_joined\<close>.
\<close>

definition main_run ::
  "clock \<Rightarrow> clock \<Rightarrow> string \<Rightarrow> 32 word \<Rightarrow> (nat \<Rightarrow> clock) \<Rightarrow> (nat \<Rightarrow> string) \<Rightarrow> nat list \<Rightarrow> system" where
  "main_run clk1 clk2 tid n_hw wclk wtid sched =
     run sched (main_startup clk1 clk2 tid n_hw init_world, main_threads wclk wtid)"

section \<open>Rendering and reading numbers\<close>

lemma read_nat_snoc: "read_nat (s @ [c]) = 10 * read_nat s + digit_val c"
  by (simp add: read_nat_def)

lemma digit_val_digit_char: "d < 10 \<Longrightarrow> digit_val (digit_char d) = d"
proof -
  assume "d < 10"
  then have "d \<in> {0, 1, 2, 3, 4, 5, 6, 7, 8, 9}" by auto
  then show ?thesis
    by (auto simp: digit_val_def digit_char_def)
qed

lemma read_show_nat: "read_nat (show_nat n) = n"
proof (induction n rule: show_nat.induct)
  case (1 n)
  show ?case
  proof (cases "n < 10")
    case True
    then show ?thesis
      by (simp add: show_nat.simps [of n] read_nat_def digit_val_digit_char)
  next
    case False
    with 1 show ?thesis
      by (simp add: show_nat.simps [of n] read_nat_snoc digit_val_digit_char)
  qed
qed

lemma is_digit_digit_char: "d < 10 \<Longrightarrow> is_digit (digit_char d)"
proof -
  assume "d < 10"
  then have "d \<in> {0, 1, 2, 3, 4, 5, 6, 7, 8, 9}" by auto
  then show ?thesis
    by (auto simp: is_digit_def digit_char_def)
qed

lemma show_nat_digits: "\<forall>c \<in> set (show_nat n). is_digit c"
proof (induction n rule: show_nat.induct)
  case (1 n)
  show ?case
  proof (cases "n < 10")
    case True
    then show ?thesis by (simp add: show_nat.simps [of n] is_digit_digit_char)
  next
    case False
    with 1 show ?thesis by (simp add: show_nat.simps [of n] is_digit_digit_char)
  qed
qed

lemma show_nat_not_Nil: "show_nat n \<noteq> []"
  by (simp add: show_nat.simps [of n])

lemma show_nat_no_minus: "hd (show_nat n) \<noteq> CHR ''-''"
proof -
  have "hd (show_nat n) \<in> set (show_nat n)"
    by (simp add: show_nat_not_Nil)
  then have "is_digit (hd (show_nat n))"
    using show_nat_digits by blast
  then show ?thesis
    by (auto simp: is_digit_def)
qed

lemma read_to_string: "read_int (to_string i) = i"
proof (cases "i < 0")
  case True
  then show ?thesis by (simp add: to_string_def read_int_def read_show_nat)
next
  case False
  obtain c cs where s: "show_nat (nat i) = c # cs"
    using show_nat_not_Nil [of "nat i"] by (cases "show_nat (nat i)") auto
  have "c \<noteq> CHR ''-''"
    using show_nat_no_minus [of "nat i"] s by simp
  with False s show ?thesis
    using read_show_nat [of "nat i"] by (simp add: to_string_def read_int_def)
qed

lemma to_string_inj:
  assumes "to_string i = to_string j"
  shows "i = j"
proof -
  have "read_int (to_string i) = read_int (to_string j)"
    using assms by (rule arg_cong)
  then show ?thesis
    by (simp only: read_to_string)
qed

section \<open>The sequence generator\<close>

lemma next_n_values: "fst (next_n n w) = map (\<lambda>k. sint (seq_counter w + word_of_nat k)) [0..<n]"
proof (induction n arbitrary: w)
  case 0
  show ?case by simp
next
  case (Suc n)
  have "map (\<lambda>k. sint (seq_counter w + word_of_nat k)) [0..<Suc n] =
        sint (seq_counter w) # map (\<lambda>k. sint (seq_counter w + 1 + word_of_nat k)) [0..<n]"
    by (simp add: upt_conv_Cons map_Suc_upt [symmetric] add.assoc del: upt_Suc)
  with Suc [of "snd (fetch_add 1 w)"] show ?case
    by (simp add: fetch_add_def split_beta Let_def)
qed

lemma next_n_counter: "seq_counter (snd (next_n n w)) = seq_counter w + word_of_nat n"
  by (induction n arbitrary: w) (simp_all add: fetch_add_def split_beta Let_def add.assoc)

lemma next_n_cout: "cout (snd (next_n n w)) = cout w"
  by (induction n arbitrary: w) (simp_all add: fetch_add_def split_beta Let_def)

declare next_n.simps [simp del]

lemma next_n_length: "length (fst (next_n n w)) = n"
  by (simp add: next_n_values)

lemma next_n_nth: "k < n \<Longrightarrow> fst (next_n n w) ! k = sint (seq_counter w + word_of_nat k)"
  by (simp add: next_n_values del: upt_Suc)

lemma sint_eq_iff: "sint (a :: 32 word) = sint b \<longleftrightarrow> a = b"
  by (auto intro: signed_word_eqI)

lemma sint_word_of_nat_small: "m < 2 ^ 31 \<Longrightarrow> sint (word_of_nat m :: 32 word) = int m"
  by (simp add: signed_of_nat signed_take_bit_int_eq_self)

lemma word_of_nat_inj32:
  "j < 2 ^ 32 \<Longrightarrow> k < 2 ^ 32 \<Longrightarrow> (word_of_nat j :: 32 word) = word_of_nat k \<Longrightarrow> j = k"
  by (simp add: word_of_nat_eq_iff take_bit_nat_eq_self)

lemma next_n_init_values:
  "fst (next_n n init_world) = map (\<lambda>k. sint (word_of_nat (Suc k) :: 32 word)) [0..<n]"
  by (simp add: next_n_values init_world_def)

lemma next_n_fresh:
  assumes "k < 2 ^ 32"
  shows "fst (next_n (Suc k) w) ! k \<notin> set (fst (next_n k w))"
proof
  assume "fst (next_n (Suc k) w) ! k \<in> set (fst (next_n k w))"
  then have "sint (seq_counter w + word_of_nat k) \<in> set (fst (next_n k w))"
    by (simp add: next_n_nth)
  then obtain j where j: "j < k" and
    eq: "sint (seq_counter w + word_of_nat k) = sint (seq_counter w + word_of_nat j)"
    by (auto simp: next_n_values)
  from eq have "(word_of_nat k :: 32 word) = word_of_nat j"
    by (simp add: sint_eq_iff)
  with j assms show False
    using word_of_nat_inj32 [of j k] by simp
qed

lemma next_n_distinct_iff: "distinct (fst (next_n n w)) \<longleftrightarrow> n \<le> 2 ^ 32"
proof
  assume d: "distinct (fst (next_n n w))"
  show "n \<le> 2 ^ 32"
  proof (rule ccontr)
    assume "\<not> n \<le> 2 ^ 32"
    then have n: "4294967296 < n" by simp
    have z: "(word_of_nat 4294967296 :: 32 word) = word_of_nat 0"
      by simp
    have "fst (next_n n w) ! 4294967296 = sint (seq_counter w + word_of_nat 4294967296)"
      using n by (rule next_n_nth)
    moreover have "fst (next_n n w) ! 0 = sint (seq_counter w + word_of_nat 0)"
      using n by (intro next_n_nth) simp
    ultimately have "fst (next_n n w) ! 0 = fst (next_n n w) ! 4294967296"
      by (simp only: z)
    with d n show False
      by (auto simp: distinct_conv_nth next_n_length)
  qed
next
  assume n: "n \<le> 2 ^ 32"
  have "inj_on (\<lambda>k. sint (seq_counter w + word_of_nat k)) {0..<n}"
  proof (rule inj_onI)
    fix j k assume "j \<in> {0..<n}" "k \<in> {0..<n}"
      and "sint (seq_counter w + word_of_nat j) = sint (seq_counter w + word_of_nat k)"
    with n show "j = k"
      using word_of_nat_inj32 [of j k] by (simp add: sint_eq_iff)
  qed
  then show "distinct (fst (next_n n w))"
    by (simp add: next_n_values distinct_map)
qed

lemma next_n_wrap_formula:
  "sint (seq_counter (snd (next_n n init_world))) = (1 + int n + 2 ^ 31) mod 2 ^ 32 - 2 ^ 31"
proof -
  have "seq_counter (snd (next_n n init_world)) = word_of_int (1 + int n)"
    by (simp add: next_n_counter init_world_def)
  then show ?thesis
    by (simp only: int_word_sint) simp
qed

lemma int_min_returned: "- 2147483648 \<in> set (fst (next_n 2147483648 init_world))"
proof -
  have "sint (word_of_nat (Suc 2147483647) :: 32 word) = - 2147483648"
    by simp
  moreover have "(2147483647 :: nat) \<in> set [0..<2147483648]"
    by simp
  ultimately show ?thesis
    unfolding next_n_init_values set_map by (metis (no_types, lifting) imageI)
qed

text \<open>
  Claim C1, as the program has it. The counter starts at 1 and a single caller's first
  \<open>n\<close> calls of \<open>fetch_add(1)\<close> return 1, 2, ..., \<open>n\<close> in this order: every value once,
  none skipped. This holds up to \<open>n = 2^31 - 1\<close>, the largest \<open>int\<close>.
\<close>

theorem next_returns_one_to_n:
  assumes "n < 2 ^ 31"
  shows "seq_counter init_world = 1
    \<and> fst (next_n n init_world) = map int [1..<Suc n]
    \<and> mset (fst (next_n n init_world)) = mset (map int [1..<Suc n])
    \<and> distinct (fst (next_n n init_world))"
proof -
  have "sint (word_of_nat (Suc k) :: 32 word) = int (Suc k)" if "k < n" for k
    using that assms by (intro sint_word_of_nat_small) simp
  then have "map (\<lambda>k. sint (word_of_nat (Suc k) :: 32 word)) [0..<n] = map (\<lambda>k. int (Suc k)) [0..<n]"
    by simp
  also have "\<dots> = map int (map Suc [0..<n])"
    by simp
  also have "map Suc [0..<n] = [1..<Suc n]"
    by (simp add: map_Suc_upt del: upt_Suc)
  finally have vals: "fst (next_n n init_world) = map int [1..<Suc n]"
    by (simp add: next_n_init_values del: upt_Suc)
  have "distinct (fst (next_n n init_world))"
    using assms by (simp add: next_n_distinct_iff)
  with vals show ?thesis
    by (simp add: init_world_def)
qed

theorem next_returns_one_to_n_witness:
  "(3 :: nat) < 2 ^ 31 \<and> fst (next_n 3 init_world) = [1, 2, 3]"
  using next_returns_one_to_n [of 3] by (simp add: upt_rec)

text \<open>
  Claim C1 as stated, for every \<open>N\<close>, fails at \<open>N = 2^31\<close>: the call number \<open>2^31\<close>
  returns the smallest \<open>int\<close>, so the values returned are not the numbers from 1 to
  \<open>2^31\<close>.
\<close>

theorem next_wraps_after_int_max:
  "set (fst (next_n 2147483648 init_world)) \<noteq> {1..2147483648}"
  using int_min_returned by auto

text \<open>
  Claim C10 as stated puts the first repeat at the call number \<open>2^32\<close>. On the code
  that call returns 0, which none of the calls before it returned, and the values of
  the first \<open>2^32\<close> calls are still pairwise distinct.
\<close>

theorem no_repeat_at_call_2_32:
  "distinct (fst (next_n 4294967296 init_world))
   \<and> fst (next_n 4294967296 init_world) ! 4294967295 = 0
   \<and> fst (next_n 4294967296 init_world) ! 4294967295 \<notin> set (fst (next_n 4294967295 init_world))"
proof -
  have d: "distinct (fst (next_n 4294967296 init_world))"
    by (simp add: next_n_distinct_iff)
  have "fst (next_n 4294967296 init_world) ! 4294967295 = sint (seq_counter init_world + word_of_nat 4294967295)"
    by (rule next_n_nth) simp
  then have z: "fst (next_n 4294967296 init_world) ! 4294967295 = 0"
    by (simp add: init_world_def)
  have f: "fst (next_n 4294967296 init_world) ! 4294967295 \<notin> set (fst (next_n 4294967295 init_world))"
    using next_n_fresh [of 4294967295 init_world] by simp
  from d z f show ?thesis by blast
qed

text \<open>
  Claim C10, as the program has it. The counter is a 32-bit signed integer whose
  \<open>fetch_add(1)\<close> wraps modulo \<open>2^32\<close>: after \<open>n\<close> calls it holds \<open>1 + n\<close> reduced to the
  two's complement range. The call number \<open>k + 1\<close> returns a value that none of the \<open>k\<close>
  calls before it returned, as long as \<open>k < 2^32\<close>; the call number \<open>2^32 + 1\<close> returns
  1 again, the value of the first call. So the values of \<open>n\<close> calls are pairwise
  distinct exactly when \<open>n\<close> is at most \<open>2^32\<close>.
\<close>

theorem seq_counter_wraps_modulo_2_32:
  "sint (seq_counter (snd (next_n n init_world))) = (1 + int n + 2 ^ 31) mod 2 ^ 32 - 2 ^ 31
   \<and> (\<forall>k < 2 ^ 32. fst (next_n (Suc k) init_world) ! k \<notin> set (fst (next_n k init_world)))
   \<and> fst (next_n (Suc 4294967296) init_world) ! 4294967296 = fst (next_n 1 init_world) ! 0
   \<and> fst (next_n 1 init_world) ! 0 = 1
   \<and> (distinct (fst (next_n n init_world)) \<longleftrightarrow> n \<le> 2 ^ 32)"
proof -
  have "fst (next_n (Suc 4294967296) init_world) ! 4294967296 = fst (next_n 1 init_world) ! 0"
    by (simp add: next_n_nth init_world_def)
  moreover have "fst (next_n 1 init_world) ! 0 = 1"
    by (simp add: next_n_nth init_world_def)
  moreover have "\<forall>k < 2 ^ 32. fst (next_n (Suc k) init_world) ! k \<notin> set (fst (next_n k init_world))"
    using next_n_fresh by blast
  ultimately show ?thesis
    using next_n_wrap_formula [of n] next_n_distinct_iff [of n init_world]
    by blast
qed

theorem seq_counter_wraps_modulo_2_32_witness:
  "(3 :: nat) < 2 ^ 32 \<and> fst (next_n (Suc 3) init_world) ! 3 \<notin> set (fst (next_n 3 init_world))
   \<and> fst (next_n 3 init_world) = [1, 2, 3]"
proof -
  have "fst (next_n 3 init_world) = [1, 2, 3]"
    by (simp add: next_n_init_values upt_rec)
  moreover have "(3 :: nat) < 2 ^ 32"
    by simp
  ultimately show ?thesis
    using seq_counter_wraps_modulo_2_32 [of 3] by blast
qed

section \<open>The timestamp formatter: format and frame\<close>

lemma show_nat_1: "n < 10 \<Longrightarrow> show_nat n = [digit_char n]"
  by (simp add: show_nat.simps [of n])

lemma show_nat_2: "10 \<le> n \<Longrightarrow> n < 100 \<Longrightarrow> show_nat n = [digit_char (n div 10), digit_char (n mod 10)]"
  by (simp add: show_nat.simps [of n] show_nat_1)

lemma show_nat_3:
  "100 \<le> n \<Longrightarrow> n < 1000 \<Longrightarrow>
   show_nat n = [digit_char (n div 100), digit_char (n div 10 mod 10), digit_char (n mod 10)]"
proof -
  assume n: "100 \<le> n" "n < 1000"
  have "n div 10 div 10 = n div 100"
    by (simp add: div_mult2_eq [symmetric])
  with n show ?thesis
    by (simp add: show_nat.simps [of n] show_nat_2)
qed

lemma digit_char_0: "digit_char 0 = CHR ''0''"
  by (simp add: digit_char_def)

lemma two_digits:
  assumes "0 \<le> v" "v < 100"
  shows "setw_fill 2 CHR ''0'' (to_string v) = [digit_char (nat v div 10), digit_char (nat v mod 10)]"
proof (cases "nat v < 10")
  case True
  with assms show ?thesis
    by (simp add: setw_fill_def to_string_def show_nat_1 digit_char_0)
next
  case False
  with assms show ?thesis
    by (simp add: setw_fill_def to_string_def show_nat_2)
qed

lemma three_digits:
  assumes "0 \<le> v" "v < 1000"
  shows "setw_fill 3 CHR ''0'' (to_string v) =
    [digit_char (nat v div 100), digit_char (nat v div 10 mod 10), digit_char (nat v mod 10)]"
proof -
  consider "nat v < 10" | "10 \<le> nat v" "nat v < 100" | "100 \<le> nat v"
    by linarith
  then show ?thesis
  proof cases
    case 1
    with assms show ?thesis
      by (simp add: setw_fill_def to_string_def show_nat_1 digit_char_0 numeral_3_eq_3)
  next
    case 2
    with assms show ?thesis
      by (simp add: setw_fill_def to_string_def show_nat_2 digit_char_0)
  next
    case 3
    with assms show ?thesis
      by (simp add: setw_fill_def to_string_def show_nat_3)
  qed
qed

lemma read_nat_2: "a < 10 \<Longrightarrow> b < 10 \<Longrightarrow> read_nat [digit_char a, digit_char b] = 10 * a + b"
  by (simp add: read_nat_def digit_val_digit_char)

lemma read_nat_3: "a < 10 \<Longrightarrow> b < 10 \<Longrightarrow> c < 10 \<Longrightarrow> read_nat [digit_char a, digit_char b, digit_char c] = 100 * a + 10 * b + c"
  by (simp add: read_nat_def digit_val_digit_char)

lemma sdiv_nonneg: "0 \<le> a \<Longrightarrow> 0 < b \<Longrightarrow> (a :: int) sdiv b = a div b"
  by (simp add: signed_divide_int_def sgn_if)

lemma smod_nonneg: "0 \<le> a \<Longrightarrow> 0 < b \<Longrightarrow> (a :: int) smod b = a mod b"
  by (simp add: signed_modulo_int_def sgn_if)

lemma current_timestamp_text:
  assumes "0 \<le> since_epoch clk"
  shows "fst (current_timestamp clk w) =
    (let s = nat ((since_epoch clk div 1000000000 + gmtoff clk) mod 86400);
         ms = nat (since_epoch clk div 1000000 mod 1000)
     in [digit_char (s div 3600 div 10), digit_char (s div 3600 mod 10), CHR '':'',
         digit_char (s mod 3600 div 60 div 10), digit_char (s mod 3600 div 60 mod 10), CHR '':'',
         digit_char (s mod 60 div 10), digit_char (s mod 60 mod 10), CHR ''.'',
         digit_char (ms div 100), digit_char (ms div 10 mod 10), digit_char (ms mod 10)])"
proof -
  define s where "s = (since_epoch clk div 1000000000 + gmtoff clk) mod 86400"
  define ms where "ms = since_epoch clk div 1000000 mod 1000"
  have s: "0 \<le> s" "s < 86400" by (simp_all add: s_def)
  have ms: "0 \<le> ms" "ms < 1000" by (simp_all add: ms_def)
  have h: "0 \<le> s div 3600" "s div 3600 < 100" using s by auto
  have m: "0 \<le> s mod 3600 div 60" "s mod 3600 div 60 < 100"
    using s by (auto simp: pos_imp_zdiv_nonneg_iff) 
  have sc: "0 \<le> s mod 60" "s mod 60 < 100" by auto
  have "fst (current_timestamp clk w) =
      setw_fill 2 CHR ''0'' (to_string (s div 3600)) @ '':'' @
      setw_fill 2 CHR ''0'' (to_string (s mod 3600 div 60)) @ '':'' @
      setw_fill 2 CHR ''0'' (to_string (s mod 60)) @ ''.'' @
      setw_fill 3 CHR ''0'' (to_string ms)"
    using assms
    by (simp add: current_timestamp_def Let_def put_time_HMS_def localtime_r_def
        duration_cast_milliseconds_def to_time_t_def sdiv_nonneg smod_nonneg
        pos_imp_zdiv_nonneg_iff s_def ms_def)
  also have "\<dots> = [digit_char (nat (s div 3600) div 10), digit_char (nat (s div 3600) mod 10), CHR '':'',
         digit_char (nat (s mod 3600 div 60) div 10), digit_char (nat (s mod 3600 div 60) mod 10), CHR '':'',
         digit_char (nat (s mod 60) div 10), digit_char (nat (s mod 60) mod 10), CHR ''.'',
         digit_char (nat ms div 100), digit_char (nat ms div 10 mod 10), digit_char (nat ms mod 10)]"
    by (simp only: two_digits [OF h] two_digits [OF m] two_digits [OF sc] three_digits [OF ms]) simp
  finally show ?thesis
    using s ms
    by (simp add: Let_def s_def [symmetric] ms_def [symmetric] nat_div_distrib nat_mod_distrib)
qed

lemma current_timestamp_world: "snd (current_timestamp clk w) = w"
  by (simp add: current_timestamp_def Let_def)

lemma current_timestamp_any_world: "fst (current_timestamp clk w) = fst (current_timestamp clk w')"
  by (simp add: current_timestamp_def Let_def)



lemma ms_digits: "100 * ((ms::nat) div 100) + 10 * (ms div 10 mod 10) + ms mod 10 = ms"
proof -
  have "ms div 10 mod 10 = ms mod 100 div 10"
    by (simp add: mod_mult2_eq [of ms 10 10, simplified])
  moreover have "ms mod 100 mod 10 = ms mod 10"
    by (simp add: mod_mod_cancel)
  ultimately have "10 * (ms div 10 mod 10) + ms mod 10 = ms mod 100"
    by (metis mult_div_mod_eq)
  then show ?thesis
    by (metis add.assoc mult_div_mod_eq)
qed

lemma ms_of_remainder: "(a::int) div 1000000 mod 1000 = a mod 1000000000 div 1000000"
proof -
  have "a mod (1000000 * 1000) = 1000000 * (a div 1000000 mod 1000) + a mod 1000000"
    by (rule zmod_zmult2_eq) simp
  then have "a mod 1000000000 div 1000000 = (a mod 1000000 + 1000000 * (a div 1000000 mod 1000)) div 1000000"
    by (simp add: add.commute)
  also have "\<dots> = a div 1000000 mod 1000"
    by (simp only: div_mult_self2 [of 1000000]) 
  finally show ?thesis by simp
qed

text \<open>
  For a clock reading at or after the epoch the text is \<open>HH:MM:SS.mmm\<close>: it matches the
  pattern, the hour, minute and second are those of the local time, within 0..23 and
  0..59, and the milliseconds are the sub-second part of the reading cut down to whole
  milliseconds, within 0..999.
\<close>

lemma current_timestamp_format_from_epoch:
  fixes clk :: clock and w :: world
  assumes "0 \<le> since_epoch clk"
  defines "ts \<equiv> fst (current_timestamp clk w)"
  shows "timestamp_pattern ts"
    and "int (hour_field ts) = (since_epoch clk div 1000000000 + gmtoff clk) mod 86400 div 3600"
    and "int (minute_field ts) = (since_epoch clk div 1000000000 + gmtoff clk) mod 3600 div 60"
    and "int (second_field ts) = (since_epoch clk div 1000000000 + gmtoff clk) mod 60"
    and "int (millisecond_field ts) = since_epoch clk mod 1000000000 div 1000000"
    and "hour_field ts < 24" and "minute_field ts < 60" and "second_field ts < 60"
    and "millisecond_field ts < 1000"
proof -
  define s where "s = nat ((since_epoch clk div 1000000000 + gmtoff clk) mod 86400)"
  define ms where "ms = nat (since_epoch clk div 1000000 mod 1000)"
  have s: "s < 86400" by (simp add: s_def nat_less_iff)
  have ms: "ms < 1000" by (simp add: ms_def nat_less_iff)
  have ts: "ts = [digit_char (s div 3600 div 10), digit_char (s div 3600 mod 10), CHR '':'',
         digit_char (s mod 3600 div 60 div 10), digit_char (s mod 3600 div 60 mod 10), CHR '':'',
         digit_char (s mod 60 div 10), digit_char (s mod 60 mod 10), CHR ''.'',
         digit_char (ms div 100), digit_char (ms div 10 mod 10), digit_char (ms mod 10)]"
    unfolding ts_def current_timestamp_text [OF assms(1)] Let_def s_def ms_def ..
  have d: "s div 3600 div 10 < 10" "s mod 3600 div 60 div 10 < 10" "s mod 60 div 10 < 10" "ms div 100 < 10"
    using s ms by auto
  show "timestamp_pattern ts"
    using d by (simp add: ts is_digit_digit_char)
  have hf: "hour_field ts = s div 3600"
    using d by (simp add: ts hour_field_def read_nat_2)
  have mf: "minute_field ts = s mod 3600 div 60"
    using d by (simp add: ts minute_field_def read_nat_2)
  have sf: "second_field ts = s mod 60"
    using d by (simp add: ts second_field_def read_nat_2)
  have msf: "millisecond_field ts = ms"
  proof -
    show ?thesis
      using d ms_digits [of ms] by (simp add: ts millisecond_field_def read_nat_3)
  qed
  show "hour_field ts < 24" using s by (simp add: hf)
  show "minute_field ts < 60" by (simp add: mf)
  show "second_field ts < 60" by (simp add: sf)
  show "millisecond_field ts < 1000" using ms by (simp add: msf)
  show "int (hour_field ts) = (since_epoch clk div 1000000000 + gmtoff clk) mod 86400 div 3600"
    by (simp add: hf s_def zdiv_int)
  have "(since_epoch clk div 1000000000 + gmtoff clk) mod 86400 mod 3600 = (since_epoch clk div 1000000000 + gmtoff clk) mod 3600"
    by (simp add: mod_mod_cancel)
  then show "int (minute_field ts) = (since_epoch clk div 1000000000 + gmtoff clk) mod 3600 div 60"
    by (simp add: mf s_def zdiv_int zmod_int)
  have "(since_epoch clk div 1000000000 + gmtoff clk) mod 86400 mod 60 = (since_epoch clk div 1000000000 + gmtoff clk) mod 60"
    by (simp add: mod_mod_cancel)
  then show "int (second_field ts) = (since_epoch clk div 1000000000 + gmtoff clk) mod 60"
    by (simp add: sf s_def zmod_int)
  have "since_epoch clk div 1000000 mod 1000 = since_epoch clk mod 1000000000 div 1000000"
    by (rule ms_of_remainder)
  then show "int (millisecond_field ts) = since_epoch clk mod 1000000000 div 1000000"
    by (simp add: msf ms_def)
qed

text \<open>
  Claim C5, at a clock reading before the epoch. One millisecond before 1970-01-01
  00:00:00 UTC the tick count is negative, \<open>duration_cast\<close> and \<open>%\<close> keep its sign,
  \<open>ms.count()\<close> is \<open>-1\<close> and \<open>setw(3)\<close> pads it to \<open>0-1\<close>: the text does not match
  \<open>\d{2}:\d{2}:\d{2}\.\d{3}\<close>. For every reading at or after the epoch the format
  holds (\<open>current_timestamp_format_from_epoch\<close>).
\<close>

theorem current_timestamp_before_epoch:
  "fst (current_timestamp \<lparr>since_epoch = - 1000000, gmtoff = 0\<rparr> init_world) = ''00:00:00.0-1''
   \<and> \<not> timestamp_pattern (fst (current_timestamp \<lparr>since_epoch = - 1000000, gmtoff = 0\<rparr> init_world))"
  by code_simp


section \<open>The log emitter and its callers, one call at a time\<close>

lemma print_thread_output_eq:
  "print_thread_output clk tid color label func_name w =
     w\<lparr>seq_counter := seq_counter w + 1,
       cout := cout w @ [compose_block color (fst (current_timestamp clk w)) (seq_counter w) label func_name tid,
                        CHR 0x1B # ''[0m'']\<rparr>"
  by (simp add: print_thread_output_def fetch_add_def cout_insert_def current_timestamp_def Let_def)

lemma separator_literal: "separator = ''---------------------------------''"
  by (simp add: separator_def eval_nat_numeral)

lemma compose_block_unlines:
  "compose_block color ts seq label func_name tid =
     color @ unlines [''['' @ ts @ ''] #'' @ to_string (sint seq) @ '' ['' @ label @ '']'',
                      ''  Function : '' @ func_name, ''  Thread ID: '' @ tid, separator]"
  by (simp add: compose_block_def unlines_def separator_literal)

lemma lines_acc_line:
  "CHR 0x0A \<notin> set l \<Longrightarrow> lines_acc cur (l @ CHR 0x0A # rest) = (cur @ l) # lines_acc [] rest"
  by (induction l arbitrary: cur) auto

lemma unlines_Cons: "unlines (l # ls) = l @ CHR 0x0A # unlines ls"
  by (simp add: unlines_def)

lemma lines_unlines: "\<forall>l \<in> set ls. CHR 0x0A \<notin> set l \<Longrightarrow> lines (unlines ls) = ls"
proof (induction ls)
  case Nil
  show ?case by (simp add: lines_def unlines_def)
next
  case (Cons l ls)
  then show ?case
    using lines_acc_line [of l "[]" "unlines ls"] by (simp add: lines_def unlines_Cons)
qed


lemma is_digit_not_newline: "is_digit c \<Longrightarrow> c \<noteq> CHR 0x0A"
  by (auto simp: is_digit_def)

lemma to_string_no_newline: "CHR 0x0A \<notin> set (to_string i)"
  using show_nat_digits is_digit_not_newline by (auto simp: to_string_def)

lemma setw_fill_no_newline: "c \<noteq> CHR 0x0A \<Longrightarrow> CHR 0x0A \<notin> set s \<Longrightarrow> CHR 0x0A \<notin> set (setw_fill n c s)"
  by (simp add: setw_fill_def)

lemma current_timestamp_no_newline: "CHR 0x0A \<notin> set (fst (current_timestamp clk w))"
  by (simp add: current_timestamp_def Let_def put_time_HMS_def setw_fill_no_newline to_string_no_newline)

lemma separator_chars: "length separator = 33" "set separator = {CHR ''-''}"
  by (simp_all add: separator_def)

lemma console_append: "console (w\<lparr>cout := cout w @ xs\<rparr>) = console w @ concat xs"
  by (simp add: console_def)

text \<open>
  Claim C3, on the code. The last statement of \<open>print_thread_output\<close>,
  \<open>cout << ss.str() << "\033[0m"\<close>, is two calls of \<open>operator<<\<close>: the colour prefix
  and the block go to the console in the first, the reset suffix in a second one. Every
  call adds two entries to the stream, not one.
\<close>

theorem print_thread_output_inserts_twice:
  "cout (print_thread_output clk tid color label func_name w) =
     cout w @ [compose_block color (fst (current_timestamp clk w)) (seq_counter w) label func_name tid,
               CHR 0x1B # ''[0m'']
   \<and> length (cout (print_thread_output clk tid color label func_name w)) = length (cout w) + 2"
  by (simp add: print_thread_output_eq)



text \<open>
  Claim C8. After its own block, \<open>main\<close> writes the line
  \<open>[TIMESTAMP] Hardware concurrency: N\<close> and the separator line of 33 dashes, once.
  \<open>N\<close> is the decimal text of the unsigned number the platform reports, so it reads
  back as a number that is not negative. The timestamp is the text that a log block
  written at the same clock reading carries between its brackets, and for a reading at
  or after the epoch it has the form \<open>HH:MM:SS.mmm\<close>, with the fields in their ranges.
\<close>

theorem hardware_concurrency_line:
  "cout (main_startup clk1 clk2 tid n_hw w) =
     cout (print_thread_output clk1 tid (CHR 0x1B # ''[33m'') ''main'' ''main'' w) @
     [''['', fst (current_timestamp clk2 w), ''] '', ''Hardware concurrency: '', to_string (uint n_hw),
      ''\<newline>'', separator @ ''\<newline>'']
   \<and> console (main_startup clk1 clk2 tid n_hw w) =
     console (print_thread_output clk1 tid (CHR 0x1B # ''[33m'') ''main'' ''main'' w) @
     unlines [''['' @ fst (current_timestamp clk2 w) @ ''] Hardware concurrency: '' @ to_string (uint n_hw),
              separator]
   \<and> lines (unlines [''['' @ fst (current_timestamp clk2 w) @ ''] Hardware concurrency: '' @ to_string (uint n_hw),
              separator]) =
       [''['' @ fst (current_timestamp clk2 w) @ ''] Hardware concurrency: '' @ to_string (uint n_hw), separator]
   \<and> length separator = 33 \<and> set separator = {CHR ''-''}
   \<and> 0 \<le> uint n_hw \<and> read_int (to_string (uint n_hw)) = uint n_hw
   \<and> cout (print_thread_output clk2 tid' color label func_name w') =
       cout w' @
       [color @ unlines
          [''['' @ fst (current_timestamp clk2 w) @ ''] #'' @ to_string (sint (seq_counter w')) @ '' ['' @ label @ '']'',
           ''  Function : '' @ func_name,
           ''  Thread ID: '' @ tid',
           separator],
        CHR 0x1B # ''[0m'']
   \<and> (0 \<le> since_epoch clk2 \<longrightarrow>
        timestamp_pattern (fst (current_timestamp clk2 w))
      \<and> hour_field (fst (current_timestamp clk2 w)) < 24
      \<and> minute_field (fst (current_timestamp clk2 w)) < 60
      \<and> second_field (fst (current_timestamp clk2 w)) < 60
      \<and> int (millisecond_field (fst (current_timestamp clk2 w))) = since_epoch clk2 mod 1000000000 div 1000000)"
proof -
  let ?w1 = "print_thread_output clk1 tid (CHR 0x1B # ''[33m'') ''main'' ''main'' w"
  let ?ts = "fst (current_timestamp clk2 w)"
  have ts: "fst (current_timestamp clk2 ?w1) = ?ts"
    by (rule current_timestamp_any_world)
  have a: "cout (main_startup clk1 clk2 tid n_hw w) =
     cout ?w1 @
     [''['', ?ts, ''] '', ''Hardware concurrency: '', to_string (uint n_hw),
      ''\<newline>'', separator @ ''\<newline>'']"
    using ts
    by (simp add: main_startup_def Let_def split_beta current_timestamp_world cout_insert_def separator_literal)
  have b: "console (main_startup clk1 clk2 tid n_hw w) =
     console ?w1 @
     unlines [''['' @ ?ts @ ''] Hardware concurrency: '' @ to_string (uint n_hw), separator]"
    by (simp add: console_def a unlines_def)
  have c: "lines (unlines [''['' @ ?ts @ ''] Hardware concurrency: '' @ to_string (uint n_hw), separator]) =
       [''['' @ ?ts @ ''] Hardware concurrency: '' @ to_string (uint n_hw), separator]"
    by (rule lines_unlines) (simp add: current_timestamp_no_newline to_string_no_newline separator_def)
  have ts': "fst (current_timestamp clk2 w') = ?ts"
    by (rule current_timestamp_any_world)
  have d: "cout (print_thread_output clk2 tid' color label func_name w') =
       cout w' @
       [color @ unlines
          [''['' @ ?ts @ ''] #'' @ to_string (sint (seq_counter w')) @ '' ['' @ label @ '']'',
           ''  Function : '' @ func_name,
           ''  Thread ID: '' @ tid',
           separator],
        CHR 0x1B # ''[0m'']"
    by (simp add: print_thread_output_eq compose_block_unlines ts')
  have e: "timestamp_pattern ?ts \<and> hour_field ?ts < 24 \<and> minute_field ?ts < 60 \<and> second_field ?ts < 60
      \<and> int (millisecond_field ?ts) = since_epoch clk2 mod 1000000000 div 1000000"
    if "0 \<le> since_epoch clk2"
    using current_timestamp_format_from_epoch [OF that, of w] by blast
  from a b c d e show ?thesis
    by (simp only: separator_chars read_to_string) simp
qed

theorem hardware_concurrency_line_witness:
  "0 \<le> since_epoch \<lparr>since_epoch = 1762056277830999999, gmtoff = 3600\<rparr>
   \<and> timestamp_pattern (fst (current_timestamp \<lparr>since_epoch = 1762056277830999999, gmtoff = 3600\<rparr> init_world))
   \<and> fst (current_timestamp \<lparr>since_epoch = 1762056277830999999, gmtoff = 3600\<rparr> init_world) = ''05:04:37.830''
   \<and> drop 2 (cout (main_startup \<lparr>since_epoch = 1762056277829999999, gmtoff = 3600\<rparr>
         \<lparr>since_epoch = 1762056277830999999, gmtoff = 3600\<rparr> ''140'' 8 init_world)) =
       [''['', ''05:04:37.830'', ''] '', ''Hardware concurrency: '', ''8'', ''\<newline>'',
        ''---------------------------------\<newline>'']"
proof -
  let ?c1 = "\<lparr>since_epoch = 1762056277829999999, gmtoff = 3600\<rparr>"
  let ?c2 = "\<lparr>since_epoch = 1762056277830999999, gmtoff = 3600\<rparr>"
  have h: "0 \<le> since_epoch ?c2"
    by simp
  have ts: "fst (current_timestamp ?c2 init_world) = ''05:04:37.830''"
    by code_simp
  have n: "to_string 8 = ''8''"
    by code_simp
  have l: "length (cout (print_thread_output ?c1 ''140'' (CHR 0x1B # ''[33m'') ''main'' ''main'' init_world)) = 2"
    by (simp add: print_thread_output_eq init_world_def)
  note line = hardware_concurrency_line [of ?c1 ?c2 "''140''" 8 init_world]
  from line h have p: "timestamp_pattern (fst (current_timestamp ?c2 init_world))"
    by blast
  from line have "cout (main_startup ?c1 ?c2 ''140'' 8 init_world) =
     cout (print_thread_output ?c1 ''140'' (CHR 0x1B # ''[33m'') ''main'' ''main'' init_world) @
     [''['', fst (current_timestamp ?c2 init_world), ''] '', ''Hardware concurrency: '', to_string (uint (8 :: 32 word)),
      ''\<newline>'', separator @ ''\<newline>'']"
    by blast
  then have "drop 2 (cout (main_startup ?c1 ?c2 ''140'' 8 init_world)) =
       [''['', ''05:04:37.830'', ''] '', ''Hardware concurrency: '', ''8'', ''\<newline>'',
        ''---------------------------------\<newline>'']"
    using l by (simp add: ts n separator_literal)
  with h p ts show ?thesis
    by blast
qed

text \<open>
  Claim C7. \<open>free_function\<close> and \<open>Foo::member_function\<close> are each one call of
  \<open>print_thread_output\<close>: one sequence number drawn, one block written. The colours are
  green and blue, different from each other and from the coordinator's yellow; the label
  ends in the decimal text of the identifier, so different identifiers give different
  labels; the function-name field is the task's own name.
\<close>

theorem worker_tasks_emit_once:
  "free_function clk tid i w =
     print_thread_output clk tid (CHR 0x1B # ''[32m'') (''free_function #'' @ to_string (sint i)) ''free_function'' w
   \<and> member_function clk tid i w =
     print_thread_output clk tid (CHR 0x1B # ''[34m'') (''Foo::member_function #'' @ to_string (sint i)) ''member_function'' w
   \<and> cout (free_function clk tid i w) =
     cout w @ [compose_block (CHR 0x1B # ''[32m'') (fst (current_timestamp clk w)) (seq_counter w)
                 (''free_function #'' @ to_string (sint i)) ''free_function'' tid,
               CHR 0x1B # ''[0m'']
   \<and> cout (member_function clk tid i w) =
     cout w @ [compose_block (CHR 0x1B # ''[34m'') (fst (current_timestamp clk w)) (seq_counter w)
                 (''Foo::member_function #'' @ to_string (sint i)) ''member_function'' tid,
               CHR 0x1B # ''[0m'']
   \<and> seq_counter (free_function clk tid i w) = seq_counter w + 1
   \<and> seq_counter (member_function clk tid i w) = seq_counter w + 1
   \<and> CHR 0x1B # ''[32m'' \<noteq> CHR 0x1B # ''[34m''
   \<and> CHR 0x1B # ''[32m'' \<noteq> CHR 0x1B # ''[33m''
   \<and> CHR 0x1B # ''[34m'' \<noteq> CHR 0x1B # ''[33m''
   \<and> (''free_function #'' @ to_string (sint i) = ''free_function #'' @ to_string (sint j) \<longleftrightarrow> i = j)
   \<and> (''Foo::member_function #'' @ to_string (sint i) = ''Foo::member_function #'' @ to_string (sint j) \<longleftrightarrow> i = j)"
proof -
  have "to_string (sint i) = to_string (sint j) \<longleftrightarrow> i = j"
    using to_string_inj [of "sint i" "sint j"] by (auto simp: sint_eq_iff)
  then show ?thesis
    by (simp add: free_function_def member_function_def print_thread_output_eq)
qed

text \<open>Reading a block back: the number after its first \<open>#\<close> is the sequence number.\<close>

lemma hash_not_digit: "is_digit c \<Longrightarrow> c \<noteq> CHR ''#'' \<and> c \<noteq> CHR '' ''"
  by (auto simp: is_digit_def)

lemma to_string_no_hash: "CHR ''#'' \<notin> set (to_string i)"
  using show_nat_digits hash_not_digit by (auto simp: to_string_def)

lemma to_string_no_blank: "CHR '' '' \<notin> set (to_string i)"
  using show_nat_digits hash_not_digit by (auto simp: to_string_def)

lemma current_timestamp_no_hash: "CHR ''#'' \<notin> set (fst (current_timestamp clk w))"
  by (simp add: current_timestamp_def Let_def put_time_HMS_def setw_fill_def to_string_no_hash)

lemma dropWhile_until: "x \<notin> set p \<Longrightarrow> dropWhile (\<lambda>c. c \<noteq> x) (p @ x # r) = x # r"
  by (induction p) auto

lemma takeWhile_until: "x \<notin> set p \<Longrightarrow> takeWhile (\<lambda>c. c \<noteq> x) (p @ x # r) = p"
  by (induction p) auto

lemma block_seq_compose_block:
  assumes "CHR ''#'' \<notin> set color"
  shows "block_seq (compose_block color (fst (current_timestamp clk w)) seq label func_name tid) = sint seq"
proof -
  let ?pre = "color @ ''['' @ fst (current_timestamp clk w) @ ''] ''"
  let ?rest = "'' ['' @ label @ '']\<newline>'' @ ''  Function : '' @ func_name @ ''\<newline>'' @
     ''  Thread ID: '' @ tid @ ''\<newline>'' @ ''---------------------------------\<newline>''"
  have blk: "compose_block color (fst (current_timestamp clk w)) seq label func_name tid =
      ?pre @ CHR ''#'' # to_string (sint seq) @ ?rest"
    by (simp add: compose_block_def)
  have pre: "CHR ''#'' \<notin> set ?pre"
    using assms current_timestamp_no_hash [of clk w] by auto
  have "dropWhile (\<lambda>c. c \<noteq> CHR ''#'') (?pre @ CHR ''#'' # to_string (sint seq) @ ?rest) =
      CHR ''#'' # to_string (sint seq) @ ?rest"
    using pre by (rule dropWhile_until)
  then have "drop 1 (dropWhile (\<lambda>c. c \<noteq> CHR ''#'') (?pre @ CHR ''#'' # to_string (sint seq) @ ?rest)) =
      to_string (sint seq) @ CHR '' '' # (''['' @ label @ '']\<newline>'' @ ''  Function : '' @ func_name @ ''\<newline>'' @
     ''  Thread ID: '' @ tid @ ''\<newline>'' @ ''---------------------------------\<newline>'')"
    by simp
  moreover have "takeWhile (\<lambda>c. c \<noteq> CHR '' '') (to_string (sint seq) @ CHR '' '' # zs) = to_string (sint seq)" for zs
    using to_string_no_blank [of "sint seq"] by (rule takeWhile_until)
  ultimately show ?thesis
    by (simp only: block_seq_def blk read_to_string)
qed

lemma is_log_block_compose_block: "is_log_block (compose_block color ts seq label func_name tid)"
  by (simp add: is_log_block_def compose_block_def suffix_def)

section \<open>Threads under any schedule\<close>

lemma sum_list_update_add:
  fixes g :: "'a \<Rightarrow> 'b :: comm_monoid_add"
  shows "i < length xs \<Longrightarrow> sum_list (map g (xs[i := y])) + g (xs ! i) = sum_list (map g xs) + g y"
proof (induction xs arbitrary: i)
  case Nil
  then show ?case by simp
next
  case (Cons x xs)
  show ?case
  proof (cases i)
    case 0
    then show ?thesis by (simp add: ac_simps)
  next
    case (Suc k)
    with Cons.prems have "k < length xs" by simp
    from Cons.IH [OF this] Suc show ?thesis
      by (simp add: ac_simps)
  qed
qed

lemma frame_step_args: "frame_args (fst (frame_step f w)) = frame_args f"
  by (cases "f_pc f") (simp_all add: frame_step_def frame_args_def split_beta Let_def)

lemma frame_step_counter:
  "seq_counter (snd (frame_step f w)) = (if f_pc f = At_fetch_add then seq_counter w + 1 else seq_counter w)"
  by (cases "f_pc f")
    (simp_all add: frame_step_def split_beta Let_def fetch_add_def cout_insert_def current_timestamp_world)

lemma frame_step_drawn:
  "drawn (fst (frame_step f w)) = (if f_pc f = At_fetch_add then {#seq_counter w#} else drawn f)"
  by (cases "f_pc f")
    (simp_all add: frame_step_def split_beta Let_def fetch_add_def drawn_def)

lemma frame_step_cout:
  "cout (snd (frame_step f w)) =
     cout w @ (case f_pc f of At_insert_block \<Rightarrow> [f_ss f] | At_insert_reset \<Rightarrow> [CHR 0x1B # ''[0m''] | _ \<Rightarrow> [])"
  by (cases "f_pc f")
    (simp_all add: frame_step_def split_beta Let_def fetch_add_def cout_insert_def current_timestamp_world)

lemma frame_step_written:
  "written (fst (frame_step f w)) =
     written f + mset (case f_pc f of At_insert_block \<Rightarrow> [f_ss f] | At_insert_reset \<Rightarrow> [CHR 0x1B # ''[0m''] | _ \<Rightarrow> [])"
  by (cases "f_pc f")
    (simp_all add: frame_step_def split_beta Let_def written_def)

lemma frame_step_composed: "composed f \<Longrightarrow> composed (fst (frame_step f w))"
  by (cases "f_pc f")
    (simp_all add: frame_step_def split_beta Let_def composed_def block_of_def
      current_timestamp_any_world [of _ w init_world])

lemma drawn_size: "size (drawn f) = (if f_pc f = At_fetch_add then 0 else 1)"
  by (simp add: drawn_def)

lemma invariant_sched_step:
  assumes "invariant c0 out0 fs0 s"
  shows "invariant c0 out0 fs0 (sched_step i s)"
proof -
  obtain w fs where s: "s = (w, fs)" by (cases s)
  show ?thesis
  proof (cases "i < length fs")
    case False
    with assms s show ?thesis by (simp add: sched_step_def)
  next
    case True
    define f where "f = fs ! i"
    define f' where "f' = fst (frame_step f w)"
    define w' where "w' = snd (frame_step f w)"
    define D where "D = sum_list (map drawn fs)"
    define D' where "D' = sum_list (map drawn (fs[i := f']))"
    have step: "sched_step i s = (w', fs[i := f'])"
      using True by (simp add: sched_step_def s split_beta f_def f'_def w'_def)
    from assms have cnt: "seq_counter w = c0 + word_of_nat (size D)"
      and seqs: "D = mset (map (\<lambda>k. c0 + word_of_nat k) [0..<size D])"
      and out: "mset (cout w) = mset out0 + sum_list (map written fs)"
      and pre: "prefix out0 (cout w)"
      and comp: "list_all composed fs"
      and args: "map frame_args fs = map frame_args fs0"
      by (simp_all add: invariant_def s D_def)
    have Dsum: "D' + drawn f = D + drawn f'"
      unfolding D'_def D_def f_def using True by (rule sum_list_update_add)
    have D'_eq: "D' = (if f_pc f = At_fetch_add then D + {#seq_counter w#} else D)"
    proof (cases "f_pc f = At_fetch_add")
      case True
      then have "drawn f = {#}"
        by (simp add: drawn_def)
      moreover from True have "drawn f' = {#seq_counter w#}"
        by (simp add: f'_def frame_step_drawn)
      ultimately show ?thesis
        using Dsum True by simp
    next
      case False
      then have "drawn f' = drawn f"
        by (simp add: f'_def frame_step_drawn)
      with Dsum False show ?thesis by simp
    qed
    have cnt': "seq_counter w' = c0 + word_of_nat (size D')"
      using cnt by (simp add: w'_def frame_step_counter D'_eq)
    have seqs': "D' = mset (map (\<lambda>k. c0 + word_of_nat k) [0..<size D'])"
    proof (cases "f_pc f = At_fetch_add")
      case True
      then have "D' = D + {#c0 + word_of_nat (size D)#}"
        by (simp add: D'_eq cnt)
      moreover from this have "size D' = Suc (size D)" by simp
      ultimately show ?thesis
        using seqs by simp
    next
      case False
      with seqs show ?thesis by (simp add: D'_eq)
    qed
    let ?ins = "case f_pc f of At_insert_block \<Rightarrow> [f_ss f] | At_insert_reset \<Rightarrow> [CHR 0x1B # ''[0m''] | _ \<Rightarrow> []"
    have cout': "cout w' = cout w @ ?ins"
      by (simp add: w'_def frame_step_cout)
    have "sum_list (map written (fs[i := f'])) + written f = sum_list (map written fs) + written f'"
      unfolding f_def using True by (rule sum_list_update_add)
    then have "sum_list (map written (fs[i := f'])) + written f = sum_list (map written fs) + written f + mset ?ins"
      by (simp add: f'_def frame_step_written)
    then have "sum_list (map written (fs[i := f'])) = sum_list (map written fs) + mset ?ins"
      by (metis (no_types, lifting) add.assoc add.commute add_right_cancel)
    then have out': "mset (cout w') = mset out0 + sum_list (map written (fs[i := f']))"
      using out by (simp add: cout')
    have pre': "prefix out0 (cout w')"
      using pre by (simp add: cout')
    have "composed f"
      using comp True by (simp add: list_all_length f_def)
    then have "composed f'"
      by (simp add: f'_def frame_step_composed)
    then have comp': "list_all composed (fs[i := f'])"
      using comp by (auto simp: list_all_iff dest: set_update_subset_insert [THEN subsetD])
    have "frame_args f' = frame_args (fs ! i)"
      by (simp add: f'_def f_def frame_step_args)
    then have "map frame_args (fs[i := f']) = map frame_args fs"
      by (simp add: map_update list_update_same_conv True)
    with args have args': "map frame_args (fs[i := f']) = map frame_args fs0"
      by simp
    from cnt' seqs' out' pre' comp' args' show ?thesis
      by (simp add: step invariant_def D'_def)
  qed
qed

lemma invariant_run: "invariant c0 out0 fs0 s \<Longrightarrow> invariant c0 out0 fs0 (run sched s)"
  unfolding run_def by (induction sched arbitrary: s) (simp_all add: invariant_sched_step)

lemma drawn_fresh: "\<forall>f \<in> set fs. f_pc f = At_fetch_add \<Longrightarrow> sum_list (map drawn fs) = {#}"
  by (induction fs) (simp_all add: drawn_def)

lemma written_fresh: "\<forall>f \<in> set fs. f_pc f = At_fetch_add \<Longrightarrow> sum_list (map written fs) = {#}"
  by (induction fs) (simp_all add: written_def)

lemma invariant_start:
  assumes "\<forall>f \<in> set fs0. f_pc f = At_fetch_add"
  shows "invariant (seq_counter w0) (cout w0) fs0 (w0, fs0)"
  using assms
  by (simp add: invariant_def drawn_fresh written_fresh list_all_iff composed_def)

lemma mset_two_split:
  assumes "{#a, b#} \<subseteq># mset xs"
  shows "\<exists>p q r. xs = p @ [a] @ q @ [b] @ r \<or> xs = p @ [b] @ q @ [a] @ r"
proof -
  from assms have "a \<in># mset xs"
    by (meson mset_subset_eqD union_single_eq_member add_mset_commute)
  then have "a \<in> set xs" by simp
  then obtain p r where xs: "xs = p @ a # r"
    by (auto dest: split_list)
  from assms have "{#b#} \<subseteq># mset p + mset r"
    by (simp add: xs)
  then have "b \<in> set p \<or> b \<in> set r"
    by (auto dest: mset_subset_eqD)
  then show ?thesis
  proof
    assume "b \<in> set p"
    then obtain p1 p2 where "p = p1 @ b # p2" by (auto dest: split_list)
    with xs have "xs = p1 @ [b] @ p2 @ [a] @ r" by simp
    then show ?thesis by blast
  next
    assume "b \<in> set r"
    then obtain r1 r2 where "r = r1 @ b # r2" by (auto dest: split_list)
    with xs have "xs = p @ [a] @ r1 @ [b] @ r2" by simp
    then show ?thesis by blast
  qed
qed

lemma sum_list_member:
  fixes g :: "'a \<Rightarrow> 'b multiset"
  shows "x \<in> set xs \<Longrightarrow> g x \<subseteq># sum_list (map g xs)"
  by (induction xs) (auto intro: subset_mset.order_trans)

lemma sum_list_two_members:
  fixes g :: "'a \<Rightarrow> 'b multiset"
  assumes "i < j" "j < length xs"
  shows "g (xs ! i) + g (xs ! j) \<subseteq># sum_list (map g xs)"
proof -
  from assms have i: "i < length xs" by simp
  have xs: "xs = take i xs @ xs ! i # drop (Suc i) xs"
    using i by (rule id_take_nth_drop)
  have "drop (Suc i) xs ! (j - Suc i) = xs ! j"
    using assms by simp
  moreover have "j - Suc i < length (drop (Suc i) xs)"
    using assms by simp
  ultimately have "xs ! j \<in> set (drop (Suc i) xs)"
    by (metis nth_mem)
  then have "g (xs ! j) \<subseteq># sum_list (map g (drop (Suc i) xs))"
    by (rule sum_list_member)
  then have "g (xs ! i) + g (xs ! j) \<subseteq># sum_list (map g (take i xs)) + (g (xs ! i) + sum_list (map g (drop (Suc i) xs)))"
    by (metis subset_mset.add_left_mono mset_subset_eq_add_right subset_mset.order_trans add.left_commute)
  also have "\<dots> = sum_list (map g (take i xs @ xs ! i # drop (Suc i) xs))"
    by simp
  also have "\<dots> = sum_list (map g xs)"
    using xs by simp
  finally show ?thesis .
qed

lemma written_block: "has_written f \<Longrightarrow> composed f \<Longrightarrow> block_of f \<in># written f"
  by (auto simp: has_written_def composed_def written_def)

lemma two_blocks_in_cout:
  assumes inv: "invariant c0 out0 fs0 (w, fs)"
    and ij: "i < j" "j < length fs"
    and wr: "has_written (fs ! i)" "has_written (fs ! j)"
  shows "{#block_of (fs ! i), block_of (fs ! j)#} \<subseteq># mset (cout w)"
proof -
  from inv have comp: "list_all composed fs"
    and out: "mset (cout w) = mset out0 + sum_list (map written fs)"
    by (simp_all add: invariant_def)
  from comp ij have "composed (fs ! i)" "composed (fs ! j)"
    by (simp_all add: list_all_length)
  with wr have "{#block_of (fs ! i)#} \<subseteq># written (fs ! i)" "{#block_of (fs ! j)#} \<subseteq># written (fs ! j)"
    by (simp_all add: written_block)
  then have "{#block_of (fs ! i)#} + {#block_of (fs ! j)#} \<subseteq># written (fs ! i) + written (fs ! j)"
    by (rule subset_mset.add_mono)
  also have "\<dots> \<subseteq># sum_list (map written fs)"
    using ij by (rule sum_list_two_members)
  also have "\<dots> \<subseteq># mset (cout w)"
    by (simp add: out)
  finally show ?thesis by (simp add: add_mset_commute)
qed

lemma block_of_lines: "block_of f = f_color f @ unlines (block_lines f)"
  by (simp add: block_of_def block_lines_def compose_block_unlines)

lemma length_block_lines: "length (block_lines f) = 4"
  by (simp add: block_lines_def)

text \<open>
  Whole blocks. Threads that each run one call of \<open>print_thread_output\<close> are started on
  any state and scheduled in any order, for any number of steps. For any two of them
  that have written their block, the stream holds both blocks as whole entries, one
  before the other: the colour sequence and the four lines of a call come out in one
  piece. This is as far as the call's output holds together; its reset suffix is a
  separate insertion.
\<close>

lemma concurrent_blocks_stay_whole:
  assumes start: "list_all (\<lambda>f. f_pc f = At_fetch_add) fs0"
    and run: "run sched (w0, fs0) = (w, fs)"
    and ij: "i < length fs" "j < length fs" "i \<noteq> j"
    and wr: "has_written (fs ! i)" "has_written (fs ! j)"
  shows "(\<exists>p q r.
            cout w = p @ [block_of (fs ! i)] @ q @ [block_of (fs ! j)] @ r
          \<and> console w = concat p @ block_of (fs ! i) @ concat q @ block_of (fs ! j) @ concat r
          \<or> cout w = p @ [block_of (fs ! j)] @ q @ [block_of (fs ! i)] @ r
          \<and> console w = concat p @ block_of (fs ! j) @ concat q @ block_of (fs ! i) @ concat r)
       \<and> block_of (fs ! i) = f_color (fs ! i) @ unlines (block_lines (fs ! i))
       \<and> block_of (fs ! j) = f_color (fs ! j) @ unlines (block_lines (fs ! j))
       \<and> length (block_lines (fs ! i)) = 4 \<and> length (block_lines (fs ! j)) = 4
       \<and> frame_args (fs ! i) = frame_args (fs0 ! i) \<and> frame_args (fs ! j) = frame_args (fs0 ! j)"
proof -
  have "invariant (seq_counter w0) (cout w0) fs0 (run sched (w0, fs0))"
    using start by (intro invariant_run invariant_start) (simp add: list_all_iff)
  then have inv: "invariant (seq_counter w0) (cout w0) fs0 (w, fs)"
    by (simp add: run)
  have two: "{#block_of (fs ! i), block_of (fs ! j)#} \<subseteq># mset (cout w)"
  proof (cases "i < j")
    case True
    with inv ij wr show ?thesis by (intro two_blocks_in_cout)
  next
    case False
    with ij have "j < i" by simp
    with inv ij wr have "{#block_of (fs ! j), block_of (fs ! i)#} \<subseteq># mset (cout w)"
      by (intro two_blocks_in_cout)
    then show ?thesis by (simp add: add_mset_commute)
  qed
  from mset_two_split [OF two] obtain p q r where
    "cout w = p @ [block_of (fs ! i)] @ q @ [block_of (fs ! j)] @ r
     \<or> cout w = p @ [block_of (fs ! j)] @ q @ [block_of (fs ! i)] @ r"
    by blast
  then have "cout w = p @ [block_of (fs ! i)] @ q @ [block_of (fs ! j)] @ r
          \<and> console w = concat p @ block_of (fs ! i) @ concat q @ block_of (fs ! j) @ concat r
          \<or> cout w = p @ [block_of (fs ! j)] @ q @ [block_of (fs ! i)] @ r
          \<and> console w = concat p @ block_of (fs ! j) @ concat q @ block_of (fs ! i) @ concat r"
    by (auto simp: console_def)
  then have split: "\<exists>p q r.
            cout w = p @ [block_of (fs ! i)] @ q @ [block_of (fs ! j)] @ r
          \<and> console w = concat p @ block_of (fs ! i) @ concat q @ block_of (fs ! j) @ concat r
          \<or> cout w = p @ [block_of (fs ! j)] @ q @ [block_of (fs ! i)] @ r
          \<and> console w = concat p @ block_of (fs ! j) @ concat q @ block_of (fs ! i) @ concat r"
    by blast
  from inv have args: "map frame_args fs = map frame_args fs0"
    by (simp add: invariant_def)
  then have len: "length fs = length fs0"
    by (rule map_eq_imp_length_eq)
  have "frame_args (fs ! k) = frame_args (fs0 ! k)" if "k < length fs" for k
    using that args len by (metis nth_map)
  with ij have "frame_args (fs ! i) = frame_args (fs0 ! i)" "frame_args (fs ! j) = frame_args (fs0 ! j)"
    by simp_all
  with split show ?thesis
    by (simp only: block_of_lines [symmetric] length_block_lines)
qed

text \<open>
  For any two calls, the schedule in which both blocks are written before either reset
  suffix leaves the first call's block and suffix apart, the second call's block between
  them.
\<close>

lemma two_calls_suffix_separated:
  "cout (fst (run [0, 1, 0, 1, 0, 1, 1, 0] (w,
     [call_print_thread_output clk0 tid0 color0 label0 func0,
      call_print_thread_output clk1 tid1 color1 label1 func1]))) =
   cout w @
   [compose_block color0 (fst (current_timestamp clk0 w)) (seq_counter w) label0 func0 tid0,
    compose_block color1 (fst (current_timestamp clk1 w)) (seq_counter w + 1) label1 func1 tid1,
    CHR 0x1B # ''[0m'', CHR 0x1B # ''[0m'']"
  by (simp add: run_def sched_step_def frame_step_def call_print_thread_output_def split_beta Let_def
      fetch_add_def cout_insert_def current_timestamp_def)

text \<open>
  Claim C2, on the code. The console output of a call is its block and then its reset
  suffix, written by two insertions. Two threads run \<open>free_function(1)\<close> and
  \<open>Foo::member_function(1)\<close> under the schedule below, in which both blocks are written
  before either suffix: the block of the second call lies between the block of the
  first call and its suffix, and the text that the first call writes when it runs alone
  is no longer one piece of the console.
\<close>

theorem concurrent_output_interleaves:
  "all_joined (run [0, 1, 0, 1, 0, 1, 1, 0] (init_world,
     [free_function_thread \<lparr>since_epoch = 1762056277829999999, gmtoff = 3600\<rparr> ''141'' 1,
      member_function_thread \<lparr>since_epoch = 1762056277830999999, gmtoff = 3600\<rparr> ''142'' 1]))
   \<and> cout (fst (run [0, 1, 0, 1, 0, 1, 1, 0] (init_world,
     [free_function_thread \<lparr>since_epoch = 1762056277829999999, gmtoff = 3600\<rparr> ''141'' 1,
      member_function_thread \<lparr>since_epoch = 1762056277830999999, gmtoff = 3600\<rparr> ''142'' 1]))) =
   [CHR 0x1B # ''[32m[05:04:37.829] #1 [free_function #1]\<newline>  Function : free_function\<newline>  Thread ID: 141\<newline>---------------------------------\<newline>'',
    CHR 0x1B # ''[34m[05:04:37.830] #2 [Foo::member_function #1]\<newline>  Function : member_function\<newline>  Thread ID: 142\<newline>---------------------------------\<newline>'',
    CHR 0x1B # ''[0m'', CHR 0x1B # ''[0m'']
   \<and> cout (free_function \<lparr>since_epoch = 1762056277829999999, gmtoff = 3600\<rparr> ''141'' 1 init_world) =
   [CHR 0x1B # ''[32m[05:04:37.829] #1 [free_function #1]\<newline>  Function : free_function\<newline>  Thread ID: 141\<newline>---------------------------------\<newline>'',
    CHR 0x1B # ''[0m'']
   \<and> \<not> sublist
       (concat (cout (free_function \<lparr>since_epoch = 1762056277829999999, gmtoff = 3600\<rparr> ''141'' 1 init_world)))
       (console (fst (run [0, 1, 0, 1, 0, 1, 1, 0] (init_world,
         [free_function_thread \<lparr>since_epoch = 1762056277829999999, gmtoff = 3600\<rparr> ''141'' 1,
          member_function_thread \<lparr>since_epoch = 1762056277830999999, gmtoff = 3600\<rparr> ''142'' 1]))))"
  by code_simp

lemma drawn_returned:
  "list_all (\<lambda>f. f_pc f = Returned) fs \<Longrightarrow> sum_list (map drawn fs) = mset (map f_seq fs)"
  by (induction fs) (simp_all add: drawn_def)

lemma written_returned:
  "list_all (\<lambda>f. f_pc f = Returned) fs \<Longrightarrow> list_all composed fs \<Longrightarrow>
   sum_list (map written fs) = mset (map block_of fs) + replicate_mset (length fs) (CHR 0x1B # ''[0m'')"
  by (induction fs) (simp_all add: written_def composed_def)

lemma main_startup_eq:
  "main_startup clk1 clk2 tid n_hw w =
     w\<lparr>seq_counter := seq_counter w + 1,
       cout := cout w @
         [compose_block (CHR 0x1B # ''[33m'') (fst (current_timestamp clk1 w)) (seq_counter w) ''main'' ''main'' tid,
          CHR 0x1B # ''[0m'',
          ''['', fst (current_timestamp clk2 w), ''] '', ''Hardware concurrency: '',
          to_string (uint n_hw), ''\<newline>'', separator @ ''\<newline>'']\<rparr>"
proof -
  let ?w1 = "print_thread_output clk1 tid (CHR 0x1B # ''[33m'') ''main'' ''main'' w"
  have "fst (current_timestamp clk2 ?w1) = fst (current_timestamp clk2 w)"
    by (rule current_timestamp_any_world)
  then show ?thesis
    by (simp add: main_startup_def Let_def split_beta current_timestamp_world cout_insert_def
        print_thread_output_eq separator_literal)
qed

lemma main_startup_counter: "seq_counter (main_startup clk1 clk2 tid n_hw init_world) = 2"
  by (simp add: main_startup_eq init_world_def)

lemma main_startup_cout:
  "cout (main_startup clk1 clk2 tid n_hw init_world) =
     [compose_block (CHR 0x1B # ''[33m'') (fst (current_timestamp clk1 init_world)) 1 ''main'' ''main'' tid,
      CHR 0x1B # ''[0m'',
      ''['', fst (current_timestamp clk2 init_world), ''] '', ''Hardware concurrency: '',
      to_string (uint n_hw), ''\<newline>'', separator @ ''\<newline>'']"
  by (simp add: main_startup_eq) (simp add: init_world_def)

lemma main_threads_start: "list_all (\<lambda>f. f_pc f = At_fetch_add) (main_threads wclk wtid)"
  by (auto simp: main_threads_def list_all_iff member_function_thread_def free_function_thread_def
      call_print_thread_output_def)

lemma main_threads_length: "length (main_threads wclk wtid) = 7"
  by (simp add: main_threads_def)

lemma main_threads_names:
  "map f_func_name (main_threads wclk wtid) =
     [''member_function'', ''member_function'', ''member_function'', ''member_function'',
      ''free_function'', ''free_function'', ''free_function'']"
  by (simp add: main_threads_def upt_rec member_function_thread_def free_function_thread_def
      call_print_thread_output_def)

lemma seven_numbers: "map (\<lambda>k. sint (2 + word_of_nat k :: 32 word)) [0..<7] = [2, 3, 4, 5, 6, 7, 8]"
  by (simp add: upt_rec)

text \<open>
  Every frame returns after four steps of its own, whatever the others do: a schedule
  that gives each thread four steps ends with all of them returned, and the join loop
  of \<open>main\<close> returns.
\<close>

lemma frame_step_steps_left: "steps_left (fst (frame_step f w)) = steps_left f - 1"
  by (cases "f_pc f") (simp_all add: frame_step_def steps_left_def split_beta Let_def)

lemma sched_step_length: "length (snd (sched_step i s)) = length (snd s)"
  by (cases s) (simp add: sched_step_def split_beta Let_def)

lemma sched_step_steps_left:
  "k < length (snd s) \<Longrightarrow>
   steps_left (snd (sched_step i s) ! k) = steps_left (snd s ! k) - (if i = k then 1 else 0)"
  by (cases s) (simp add: sched_step_def split_beta Let_def frame_step_steps_left nth_list_update)

lemma run_length: "length (snd (run sched s)) = length (snd s)"
  unfolding run_def by (induction sched arbitrary: s) (simp_all add: sched_step_length)

lemma run_steps_left:
  "k < length (snd s) \<Longrightarrow>
   steps_left (snd (run sched s) ! k) = steps_left (snd s ! k) - count_list sched k"
  unfolding run_def
proof (induction sched arbitrary: s)
  case Nil
  then show ?case by simp
next
  case (Cons i sched)
  from Cons.prems have "k < length (snd (sched_step i s))"
    by (simp add: sched_step_length)
  from Cons.IH [OF this] Cons.prems show ?case
    by (simp add: sched_step_steps_left)
qed

lemma steps_left_0: "steps_left f = 0 \<longleftrightarrow> f_pc f = Returned"
  by (cases "f_pc f") (simp_all add: steps_left_def)

lemma fair_schedule_joins:
  assumes "\<forall>k < length fs. 4 \<le> count_list sched k"
  shows "all_joined (run sched (w, fs))"
proof -
  have "f_pc (snd (run sched (w, fs)) ! k) = Returned" if "k < length fs" for k
  proof -
    have "steps_left (snd (run sched (w, fs)) ! k) = steps_left (fs ! k) - count_list sched k"
      using that run_steps_left [of k "(w, fs)" sched] by simp
    moreover have "steps_left (fs ! k) \<le> 4"
      by (cases "f_pc (fs ! k)") (simp_all add: steps_left_def)
    ultimately have "steps_left (snd (run sched (w, fs)) ! k) = 0"
      using assms that by auto
    then show ?thesis
      by (simp add: steps_left_0)
  qed
  then show ?thesis
    using run_length [of sched "(w, fs)"] by (simp add: all_joined_def list_all_length)
qed

lemma main_joins_under_fair_schedule:
  assumes "\<forall>k < 7. 4 \<le> count_list sched k"
  shows "all_joined (main_run clk1 clk2 tid n_hw wclk wtid sched)"
  unfolding main_run_def using assms
  by (intro fair_schedule_joins) (simp add: main_threads_def)

text \<open>
  The stream and the frames after the join: what the stream holds, as a multiset of
  insertions, and the numbers the frames drew.
\<close>

lemma main_run_stream:
  fixes clk1 clk2 :: clock and tid :: string and n_hw :: "32 word"
    and wclk :: "nat \<Rightarrow> clock" and wtid :: "nat \<Rightarrow> string" and sched :: "nat list"
  defines "R \<equiv> main_run clk1 clk2 tid n_hw wclk wtid sched"
  assumes joined: "all_joined R"
  shows "take 2 (cout (fst R)) =
           [compose_block (CHR 0x1B # ''[33m'') (fst (current_timestamp clk1 init_world)) 1 ''main'' ''main'' tid,
            CHR 0x1B # ''[0m'']
       \<and> mset (cout (fst R)) =
           {#compose_block (CHR 0x1B # ''[33m'') (fst (current_timestamp clk1 init_world)) 1 ''main'' ''main'' tid#}
           + mset (map block_of (snd R))
           + replicate_mset 8 (CHR 0x1B # ''[0m'')
           + mset [''['', fst (current_timestamp clk2 init_world), ''] '', ''Hardware concurrency: '',
                   to_string (uint n_hw), ''\<newline>'', separator @ ''\<newline>'']
       \<and> length (snd R) = 7
       \<and> map f_func_name (snd R) =
           [''member_function'', ''member_function'', ''member_function'', ''member_function'',
            ''free_function'', ''free_function'', ''free_function'']
       \<and> mset (1 # map (\<lambda>f. sint (f_seq f)) (snd R)) = mset [1, 2, 3, 4, 5, 6, 7, 8]
       \<and> list_all (\<lambda>f. CHR ''#'' \<notin> set (f_color f)) (snd R)"
proof -
  let ?w0 = "main_startup clk1 clk2 tid n_hw init_world"
  let ?fs0 = "main_threads wclk wtid"
  let ?reset = "CHR 0x1B # ''[0m''"
  obtain w fs where R: "R = (w, fs)" by (cases R)
  have "invariant (seq_counter ?w0) (cout ?w0) ?fs0 (run sched (?w0, ?fs0))"
    using main_threads_start [of wclk wtid]
    by (intro invariant_run invariant_start) (simp add: list_all_iff)
  then have inv: "invariant 2 (cout ?w0) ?fs0 (w, fs)"
    using R by (simp add: R_def main_run_def main_startup_counter)
  then have cnt: "sum_list (map drawn fs) =
        mset (map (\<lambda>k. 2 + word_of_nat k) [0..<size (sum_list (map drawn fs))])"
    and out: "mset (cout w) = mset (cout ?w0) + sum_list (map written fs)"
    and pre: "prefix (cout ?w0) (cout w)"
    and comp: "list_all composed fs"
    and args: "map frame_args fs = map frame_args ?fs0"
    by (simp_all add: invariant_def)
  from joined R have ret: "list_all (\<lambda>f. f_pc f = Returned) fs"
    by (simp add: all_joined_def)
  from args have "length fs = length ?fs0"
    by (rule map_eq_imp_length_eq)
  then have len: "length fs = 7"
    by (simp add: main_threads_length)
  have "map (\<lambda>a. snd (snd (snd (snd a)))) (map frame_args fs) = map (\<lambda>a. snd (snd (snd (snd a)))) (map frame_args ?fs0)"
    using args by simp
  then have names: "map f_func_name fs = map f_func_name ?fs0"
    by (simp add: frame_args_def comp_def)
  have seqs: "mset (map f_seq fs) = mset (map (\<lambda>k. 2 + word_of_nat k) [0..<7])"
    using cnt len by (simp add: drawn_returned [OF ret] del: upt_Suc)
  have "mset (map sint (map f_seq fs)) = image_mset sint (mset (map f_seq fs))"
    by (rule mset_map)
  also have "\<dots> = image_mset sint (mset (map (\<lambda>k. 2 + word_of_nat k :: 32 word) [0..<7]))"
    by (simp only: seqs)
  also have "\<dots> = mset (map sint (map (\<lambda>k. 2 + word_of_nat k :: 32 word) [0..<7]))"
    by (rule mset_map [symmetric])
  finally have nums: "mset (map (\<lambda>f. sint (f_seq f)) fs) = mset [2, 3, 4, 5, 6, 7, 8]"
    by (simp only: map_map comp_def seven_numbers)
  from pre obtain zs where "cout w = cout ?w0 @ zs"
    by (auto simp: prefix_def)
  then have first: "take 2 (cout w) =
      [compose_block (CHR 0x1B # ''[33m'') (fst (current_timestamp clk1 init_world)) 1 ''main'' ''main'' tid, ?reset]"
    by (simp add: main_startup_cout)
  have all: "mset (cout w) =
           {#compose_block (CHR 0x1B # ''[33m'') (fst (current_timestamp clk1 init_world)) 1 ''main'' ''main'' tid#}
           + mset (map block_of fs)
           + replicate_mset 8 ?reset
           + mset [''['', fst (current_timestamp clk2 init_world), ''] '', ''Hardware concurrency: '',
                   to_string (uint n_hw), ''\<newline>'', separator @ ''\<newline>'']"
    by (simp add: out written_returned [OF ret comp] len main_startup_cout eval_nat_numeral)
  have "map (\<lambda>a. fst (snd (snd a))) (map frame_args fs) = map (\<lambda>a. fst (snd (snd a))) (map frame_args ?fs0)"
    using args by simp
  then have "map f_color fs = map f_color ?fs0"
    by (simp add: frame_args_def comp_def)
  then have "set (map f_color fs) \<subseteq> {CHR 0x1B # ''[34m'', CHR 0x1B # ''[32m''}"
    by (auto simp: main_threads_def member_function_thread_def free_function_thread_def
        call_print_thread_output_def)
  then have cols: "list_all (\<lambda>f. CHR ''#'' \<notin> set (f_color f)) fs"
    by (auto simp: list_all_iff)
  from first all len names nums cols show ?thesis
    by (simp add: R main_threads_names)
qed

lemma not_log_block:
  "\<not> is_log_block (CHR 0x1B # ''[0m'')"
  "\<not> is_log_block ''[''"
  "\<not> is_log_block (fst (current_timestamp clk w))"
  "\<not> is_log_block ''] ''"
  "\<not> is_log_block ''Hardware concurrency: ''"
  "\<not> is_log_block (to_string i)"
  "\<not> is_log_block ''\<newline>''"
  "\<not> is_log_block (separator @ ''\<newline>'')"
  by (simp_all add: is_log_block_def current_timestamp_no_hash to_string_no_hash separator_def)

lemma block_of_is_log_block: "is_log_block (block_of f)"
  by (simp add: block_of_def is_log_block_compose_block)

lemma block_seq_block_of: "CHR ''#'' \<notin> set (f_color f) \<Longrightarrow> block_seq (block_of f) = sint (f_seq f)"
  by (simp add: block_of_def block_seq_compose_block)

lemma filter_mset_replicate_no: "\<not> P x \<Longrightarrow> filter_mset P (replicate_mset n x) = {#}"
  by (induction n) simp_all

text \<open>
  Claim C6. \<open>main\<close> writes its own block first, before any thread exists; it then runs
  four threads on \<open>Foo::member_function\<close> and three on \<open>free_function\<close>. Under every
  schedule, once all seven have returned, the stream holds exactly eight log blocks:
  the coordinator's, which comes first, and one per worker. The sequence numbers
  written in the eight blocks, read back from their text, are the numbers 1 to 8, each
  once, and the number written in the coordinator's block is 1. Besides the blocks the
  stream holds eight reset suffixes and the pieces of the hardware-concurrency line.
\<close>

theorem main_emits_eight_blocks:
  fixes clk1 clk2 :: clock and tid :: string and n_hw :: "32 word"
    and wclk :: "nat \<Rightarrow> clock" and wtid :: "nat \<Rightarrow> string" and sched :: "nat list"
  defines "R \<equiv> main_run clk1 clk2 tid n_hw wclk wtid sched"
  assumes joined: "all_joined R"
  shows "take 2 (cout (fst R)) =
           [compose_block (CHR 0x1B # ''[33m'') (fst (current_timestamp clk1 init_world)) 1 ''main'' ''main'' tid,
            CHR 0x1B # ''[0m'']
       \<and> mset (cout (fst R)) =
           {#compose_block (CHR 0x1B # ''[33m'') (fst (current_timestamp clk1 init_world)) 1 ''main'' ''main'' tid#}
           + mset (map block_of (snd R))
           + replicate_mset 8 (CHR 0x1B # ''[0m'')
           + mset [''['', fst (current_timestamp clk2 init_world), ''] '', ''Hardware concurrency: '',
                   to_string (uint n_hw), ''\<newline>'', separator @ ''\<newline>'']
       \<and> length (snd R) = 7
       \<and> map f_func_name (snd R) =
           [''member_function'', ''member_function'', ''member_function'', ''member_function'',
            ''free_function'', ''free_function'', ''free_function'']
       \<and> mset (1 # map (\<lambda>f. sint (f_seq f)) (snd R)) = mset [1, 2, 3, 4, 5, 6, 7, 8]
       \<and> length (log_blocks (fst R)) = 8
       \<and> mset (map block_seq (log_blocks (fst R))) = mset [1, 2, 3, 4, 5, 6, 7, 8]
       \<and> hd (log_blocks (fst R)) = hd (cout (fst R))
       \<and> block_seq (hd (log_blocks (fst R))) = 1
       \<and> mset (log_blocks (fst R)) =
           {#compose_block (CHR 0x1B # ''[33m'') (fst (current_timestamp clk1 init_world)) 1 ''main'' ''main'' tid#}
           + mset (map block_of (snd R))"
proof -
  let ?main = "compose_block (CHR 0x1B # ''[33m'') (fst (current_timestamp clk1 init_world)) 1 ''main'' ''main'' tid"
  let ?reset = "CHR 0x1B # ''[0m''"
  obtain w fs where R: "R = (w, fs)" by (cases R)
  from main_run_stream [of clk1 clk2 tid n_hw wclk wtid sched] joined
  have first: "take 2 (cout w) = [?main, ?reset]"
    and all: "mset (cout w) =
           {#?main#} + mset (map block_of fs) + replicate_mset 8 ?reset
           + mset [''['', fst (current_timestamp clk2 init_world), ''] '', ''Hardware concurrency: '',
                   to_string (uint n_hw), ''\<newline>'', separator @ ''\<newline>'']"
    and len: "length fs = 7"
    and names: "map f_func_name fs =
           [''member_function'', ''member_function'', ''member_function'', ''member_function'',
            ''free_function'', ''free_function'', ''free_function'']"
    and nums: "mset (1 # map (\<lambda>f. sint (f_seq f)) fs) = mset [1, 2, 3, 4, 5, 6, 7, 8]"
    and cols: "list_all (\<lambda>f. CHR ''#'' \<notin> set (f_color f)) fs"
    unfolding R_def [symmetric] R by simp_all
  have main_block: "is_log_block ?main"
    by (rule is_log_block_compose_block)
  have main_seq: "block_seq ?main = 1"
    using block_seq_compose_block [of "CHR 0x1B # ''[33m''" clk1 init_world 1 "''main''" "''main''" tid]
    by simp
  have "filter is_log_block (map block_of fs) = map block_of fs"
    by (simp add: block_of_is_log_block)
  then have keep: "filter_mset is_log_block (mset (map block_of fs)) = mset (map block_of fs)"
    by (metis mset_filter)
  have "mset (log_blocks w) = filter_mset is_log_block (mset (cout w))"
    by (simp add: log_blocks_def)
  also have "\<dots> = {#?main#} + mset (map block_of fs)"
    unfolding all using main_block keep
    by (simp add: not_log_block filter_mset_replicate_no del: mset_map)
  finally have blocks: "mset (log_blocks w) = {#?main#} + mset (map block_of fs)" .
  then have "size (mset (log_blocks w)) = size ({#?main#} + mset (map block_of fs))"
    by simp
  then have count: "length (log_blocks w) = 8"
    using len by simp
  have m: "map block_seq (map block_of fs) = map (\<lambda>f. sint (f_seq f)) fs"
    using cols by (simp add: list_all_iff block_seq_block_of)
  have "map block_seq (?main # map block_of fs) = 1 # map (\<lambda>f. sint (f_seq f)) fs"
    by (simp only: list.map(2) m main_seq)
  then have "mset (map block_seq (?main # map block_of fs)) = mset (1 # map (\<lambda>f. sint (f_seq f)) fs)"
    by (rule arg_cong)
  moreover have "mset (map block_seq (log_blocks w)) = mset (map block_seq (?main # map block_of fs))"
  proof -
    have "mset (log_blocks w) = mset (?main # map block_of fs)"
      using blocks by simp
    then have "image_mset block_seq (mset (log_blocks w)) = image_mset block_seq (mset (?main # map block_of fs))"
      by (rule arg_cong)
    then show ?thesis
      by (simp only: mset_map)
  qed
  ultimately have seqs: "mset (map block_seq (log_blocks w)) = mset [1, 2, 3, 4, 5, 6, 7, 8]"
    using nums by simp
  from first obtain rest where cw: "cout w = ?main # rest"
    by (cases "cout w") auto
  then have lb: "log_blocks w = ?main # filter is_log_block rest"
    using main_block by (simp add: log_blocks_def)
  have hd1: "hd (log_blocks w) = hd (cout w)"
    by (simp add: lb cw)
  have hd2: "block_seq (hd (log_blocks w)) = 1"
    by (simp add: lb main_seq)
  from first all len names nums count seqs hd1 hd2 blocks show ?thesis
    by (simp add: R)
qed

theorem main_emits_eight_blocks_witness:
  "all_joined (main_run \<lparr>since_epoch = 1762056277829999999, gmtoff = 3600\<rparr>
       \<lparr>since_epoch = 1762056277830999999, gmtoff = 3600\<rparr> ''140'' 8
       (\<lambda>k. \<lparr>since_epoch = 1762056277831000000, gmtoff = 3600\<rparr>) (\<lambda>k. ''141'')
       [0, 1, 6, 5, 2, 4, 3, 3, 3, 3, 0, 1, 2, 0, 1, 2, 0, 1, 2, 4, 5, 6, 6, 5, 4, 4, 5, 6])
   \<and> length (log_blocks (fst (main_run \<lparr>since_epoch = 1762056277829999999, gmtoff = 3600\<rparr>
       \<lparr>since_epoch = 1762056277830999999, gmtoff = 3600\<rparr> ''140'' 8
       (\<lambda>k. \<lparr>since_epoch = 1762056277831000000, gmtoff = 3600\<rparr>) (\<lambda>k. ''141'')
       [0, 1, 6, 5, 2, 4, 3, 3, 3, 3, 0, 1, 2, 0, 1, 2, 0, 1, 2, 4, 5, 6, 6, 5, 4, 4, 5, 6]))) = 8
   \<and> mset (map block_seq (log_blocks (fst (main_run \<lparr>since_epoch = 1762056277829999999, gmtoff = 3600\<rparr>
       \<lparr>since_epoch = 1762056277830999999, gmtoff = 3600\<rparr> ''140'' 8
       (\<lambda>k. \<lparr>since_epoch = 1762056277831000000, gmtoff = 3600\<rparr>) (\<lambda>k. ''141'')
       [0, 1, 6, 5, 2, 4, 3, 3, 3, 3, 0, 1, 2, 0, 1, 2, 0, 1, 2, 4, 5, 6, 6, 5, 4, 4, 5, 6])))) =
     mset [1, 2, 3, 4, 5, 6, 7, 8]
   \<and> map block_seq (log_blocks (fst (main_run \<lparr>since_epoch = 1762056277829999999, gmtoff = 3600\<rparr>
       \<lparr>since_epoch = 1762056277830999999, gmtoff = 3600\<rparr> ''140'' 8
       (\<lambda>k. \<lparr>since_epoch = 1762056277831000000, gmtoff = 3600\<rparr>) (\<lambda>k. ''141'')
       [0, 1, 6, 5, 2, 4, 3, 3, 3, 3, 0, 1, 2, 0, 1, 2, 0, 1, 2, 4, 5, 6, 6, 5, 4, 4, 5, 6]))) =
     [1, 8, 2, 3, 6, 4, 5, 7]
   \<and> hd (log_blocks (fst (main_run \<lparr>since_epoch = 1762056277829999999, gmtoff = 3600\<rparr>
       \<lparr>since_epoch = 1762056277830999999, gmtoff = 3600\<rparr> ''140'' 8
       (\<lambda>k. \<lparr>since_epoch = 1762056277831000000, gmtoff = 3600\<rparr>) (\<lambda>k. ''141'')
       [0, 1, 6, 5, 2, 4, 3, 3, 3, 3, 0, 1, 2, 0, 1, 2, 0, 1, 2, 4, 5, 6, 6, 5, 4, 4, 5, 6]))) =
     CHR 0x1B # ''[33m[05:04:37.829] #1 [main]\<newline>  Function : main\<newline>  Thread ID: 140\<newline>---------------------------------\<newline>''
   \<and> map (\<lambda>f. sint (f_seq f)) (snd (main_run \<lparr>since_epoch = 1762056277829999999, gmtoff = 3600\<rparr>
       \<lparr>since_epoch = 1762056277830999999, gmtoff = 3600\<rparr> ''140'' 8
       (\<lambda>k. \<lparr>since_epoch = 1762056277831000000, gmtoff = 3600\<rparr>) (\<lambda>k. ''141'')
       [0, 1, 6, 5, 2, 4, 3, 3, 3, 3, 0, 1, 2, 0, 1, 2, 0, 1, 2, 4, 5, 6, 6, 5, 4, 4, 5, 6])) =
     [2, 3, 6, 8, 7, 5, 4]"
proof -
  let ?R = "main_run \<lparr>since_epoch = 1762056277829999999, gmtoff = 3600\<rparr>
       \<lparr>since_epoch = 1762056277830999999, gmtoff = 3600\<rparr> ''140'' 8
       (\<lambda>k. \<lparr>since_epoch = 1762056277831000000, gmtoff = 3600\<rparr>) (\<lambda>k. ''141'')
       [0, 1, 6, 5, 2, 4, 3, 3, 3, 3, 0, 1, 2, 0, 1, 2, 0, 1, 2, 4, 5, 6, 6, 5, 4, 4, 5, 6]"
  have joined: "all_joined ?R"
    by code_simp
  have order: "map (\<lambda>f. sint (f_seq f)) (snd ?R) = [2, 3, 6, 8, 7, 5, 4]"
    by code_simp
  have on_console: "map block_seq (log_blocks (fst ?R)) = [1, 8, 2, 3, 6, 4, 5, 7]"
    by code_simp
  have first: "hd (log_blocks (fst ?R)) =
     CHR 0x1B # ''[33m[05:04:37.829] #1 [main]\<newline>  Function : main\<newline>  Thread ID: 140\<newline>---------------------------------\<newline>''"
    by code_simp
  from main_emits_eight_blocks [OF joined]
  have "length (log_blocks (fst ?R)) = 8
      \<and> mset (map block_seq (log_blocks (fst ?R))) = mset [1, 2, 3, 4, 5, 6, 7, 8]"
    by blast
  with joined order on_console first show ?thesis
    by blast
qed

text \<open>A thread that runs alone does what the function does when called.\<close>

lemma frame_alone_is_print_thread_output:
  "fst (run [0, 0, 0, 0] (w, [call_print_thread_output clk tid color label func_name])) =
     print_thread_output clk tid color label func_name w"
  by (simp add: run_def sched_step_def frame_step_def call_print_thread_output_def split_beta Let_def
      print_thread_output_def)

lemma worker_threads_run_worker_tasks:
  "fst (run [0, 0, 0, 0] (w, [free_function_thread clk tid i])) = free_function clk tid i w"
  "fst (run [0, 0, 0, 0] (w, [member_function_thread clk tid i])) = member_function clk tid i w"
  by (simp_all add: free_function_thread_def member_function_thread_def free_function_def
      member_function_def frame_alone_is_print_thread_output)

end
